theory Spec2Isabelle
  imports Main "HOL-Library.Sublist"
begin

section \<open>Go strings as byte lists\<close>

text \<open>
  A Go string is a sequence of bytes; it is modelled as a \<open>string\<close> (a list of 8-bit
  \<open>char\<close>s). The functions of Go's \<open>strings\<close> package that package \<open>urlparser\<close> calls
  are written out below. An index that Go reports as \<open>-1\<close> is \<open>None\<close> here.
\<close>

fun Index :: "string \<Rightarrow> string \<Rightarrow> nat option" where
  "Index [] sub = (if sub = [] then Some 0 else None)"
| "Index (c # cs) sub =
     (if prefix sub (c # cs) then Some 0 else map_option Suc (Index cs sub))"

fun LastIndex :: "string \<Rightarrow> string \<Rightarrow> nat option" where
  "LastIndex [] sub = (if sub = [] then Some 0 else None)"
| "LastIndex (c # cs) sub =
     (case LastIndex cs sub of
        Some i \<Rightarrow> Some (Suc i)
      | None \<Rightarrow> if prefix sub (c # cs) then Some 0 else None)"

definition Contains :: "string \<Rightarrow> string \<Rightarrow> bool" where
  "Contains s sub = (Index s sub \<noteq> None)"

definition TrimPrefix :: "string \<Rightarrow> string \<Rightarrow> string" where
  "TrimPrefix s p = (if prefix p s then drop (length p) s else s)"

definition TrimSuffix :: "string \<Rightarrow> string \<Rightarrow> string" where
  "TrimSuffix s p = (if suffix p s then take (length s - length p) s else s)"

text \<open>\<open>strings.TrimLeft(s, "/")\<close>: the cutset is the single byte \<open>/\<close>.\<close>

definition TrimLeftSlash :: "string \<Rightarrow> string" where
  "TrimLeftSlash s = dropWhile (\<lambda>c. c = CHR ''/'') s"

text \<open>
  \<open>strings.ReplaceAll(s, "//", "/")\<close> replaces the non-overlapping occurrences of
  \<open>//\<close> from the left.
\<close>

fun ReplaceAllSlashes :: "string \<Rightarrow> string" where
  "ReplaceAllSlashes (a # b # cs) =
     (if a = CHR ''/'' \<and> b = CHR ''/'' then CHR ''/'' # ReplaceAllSlashes cs
      else a # ReplaceAllSlashes (b # cs))"
| "ReplaceAllSlashes cs = cs"

subsection \<open>Lower case\<close>

text \<open>
  \<open>strings.ToLower\<close> lowers the letters \<open>A\<close> to \<open>Z\<close> of a string that has only ASCII
  bytes. On a string with a byte from \<open>0x80\<close> up it maps every rune through the Unicode
  tables of Go's standard library; those tables are not part of the repository, so that
  case is the parameter \<open>U\<close> of every function that lowers a string, and every theorem
  holds for each \<open>U\<close>. (Go's mapping sends one rune to one rune, so a lowered string that
  starts with \<open>n\<close> ASCII bytes comes from at least \<open>n\<close> bytes, and the slices taken after
  a prefix test below are always in range.)
\<close>

type_synonym unicode_lower = "string \<Rightarrow> string"

definition isASCII :: "string \<Rightarrow> bool" where
  "isASCII s = list_all (\<lambda>c. (of_char c :: nat) < 128) s"

definition lowerByte :: "char \<Rightarrow> char" where
  "lowerByte c =
     (if (65::nat) \<le> of_char c \<and> (of_char c :: nat) \<le> 90
      then char_of (of_char c + (32::nat)) else c)"

text \<open>
  The same two functions on the bits of a byte, for evaluation: a byte is below \<open>0x80\<close>
  when its top bit is clear, and it is one of \<open>A\<close> to \<open>Z\<close> (\<open>0x41\<close> to \<open>0x5A\<close>) when its
  top three bits are \<open>010\<close> and its low five bits are a number from 1 to 26; adding 32
  then sets bit 5.
\<close>

lemma isASCII_code [code]: "isASCII s = list_all (\<lambda>c. \<not> digit7 c) s"
proof -
  have "((of_char c :: nat) < 128) = (\<not> digit7 c)" for c
    by (cases c) simp
  then show ?thesis
    by (simp add: isASCII_def)
qed

lemma lowerByte_code [code]:
  "lowerByte (Char b0 b1 b2 b3 b4 b5 b6 b7) =
     (if \<not> b7 \<and> b6 \<and> \<not> b5 \<and> (b0 \<or> b1 \<or> b2 \<or> b3 \<or> b4) \<and>
         \<not> (b4 \<and> b3 \<and> (b2 \<or> (b1 \<and> b0)))
      then Char b0 b1 b2 b3 b4 True b6 b7
      else Char b0 b1 b2 b3 b4 b5 b6 b7)"
  by (cases b0; cases b1; cases b2; cases b3; cases b4; cases b5; cases b6; cases b7)
     (simp_all add: lowerByte_def char_of_def bit_Suc_0_iff bit_0)

definition ToLower :: "unicode_lower \<Rightarrow> string \<Rightarrow> string" where
  "ToLower U s = (if isASCII s then map lowerByte s else U s)"

subsection \<open>White space\<close>

text \<open>
  \<open>strings.TrimSpace\<close> removes leading and trailing white space as Unicode defines it:
  the ASCII bytes tab, line feed, vertical tab, form feed, carriage return and space, and
  the UTF-8 encodings of U+0085, U+00A0, U+1680, U+2000 to U+200A, U+2028, U+2029,
  U+202F, U+205F and U+3000. \<open>spaceWidth s\<close> is the number of bytes of the white-space
  rune that \<open>s\<close> starts with (0 when it starts with none), \<open>spaceWidthEnd s\<close> that of the
  one it ends with.
\<close>

definition asciiSpace :: "char \<Rightarrow> bool" where
  "asciiSpace c = (c \<in> set [CHR 0x09, CHR 0x0A, CHR 0x0B, CHR 0x0C, CHR 0x0D, CHR 0x20])"

definition unicodeSpaces :: "string list" where
  "unicodeSpaces =
     [[CHR 0xC2, CHR 0x85], [CHR 0xC2, CHR 0xA0], [CHR 0xE1, CHR 0x9A, CHR 0x80],
      [CHR 0xE2, CHR 0x80, CHR 0x80], [CHR 0xE2, CHR 0x80, CHR 0x81],
      [CHR 0xE2, CHR 0x80, CHR 0x82], [CHR 0xE2, CHR 0x80, CHR 0x83],
      [CHR 0xE2, CHR 0x80, CHR 0x84], [CHR 0xE2, CHR 0x80, CHR 0x85],
      [CHR 0xE2, CHR 0x80, CHR 0x86], [CHR 0xE2, CHR 0x80, CHR 0x87],
      [CHR 0xE2, CHR 0x80, CHR 0x88], [CHR 0xE2, CHR 0x80, CHR 0x89],
      [CHR 0xE2, CHR 0x80, CHR 0x8A], [CHR 0xE2, CHR 0x80, CHR 0xA8],
      [CHR 0xE2, CHR 0x80, CHR 0xA9], [CHR 0xE2, CHR 0x80, CHR 0xAF],
      [CHR 0xE2, CHR 0x81, CHR 0x9F], [CHR 0xE3, CHR 0x80, CHR 0x80]]"

definition spaceWidth :: "string \<Rightarrow> nat" where
  "spaceWidth s =
     (case s of
        [] \<Rightarrow> 0
      | c # cs \<Rightarrow>
          if asciiSpace c then 1
          else (case find (\<lambda>w. prefix w s) unicodeSpaces of
                  Some w \<Rightarrow> length w | None \<Rightarrow> 0))"

definition spaceWidthEnd :: "string \<Rightarrow> nat" where
  "spaceWidthEnd s =
     (if s = [] then 0
      else if asciiSpace (last s) then 1
      else (case find (\<lambda>w. suffix w s) unicodeSpaces of
              Some w \<Rightarrow> length w | None \<Rightarrow> 0))"

function TrimLeftSpace :: "string \<Rightarrow> string" where
  "TrimLeftSpace s =
     (if spaceWidth s = 0 then s else TrimLeftSpace (drop (spaceWidth s) s))"
  by pat_completeness auto
termination
  by (relation "measure length") (auto simp: spaceWidth_def split: list.splits)

declare TrimLeftSpace.simps [simp del]

function TrimRightSpace :: "string \<Rightarrow> string" where
  "TrimRightSpace s =
     (if spaceWidthEnd s = 0 then s
      else TrimRightSpace (take (length s - spaceWidthEnd s) s))"
  by pat_completeness auto
termination
  by (relation "measure length") (auto simp: spaceWidthEnd_def split: if_splits)

declare TrimRightSpace.simps [simp del]

definition TrimSpace :: "string \<Rightarrow> string" where
  "TrimSpace s = TrimRightSpace (TrimLeftSpace s)"

section \<open>The known-host table\<close>

text \<open>
  \<open>knownHosts\<close> and \<open>knownSubdomains\<close> are Go maps; they are association lists here, in
  the order of the source's literals. \<open>subdomainPrefixes\<close> is the map that \<open>init\<close>
  fills with \<open>subdomain + "." + domain\<close> for every pair.
\<close>

definition knownHosts :: "(string \<times> string) list" where
  "knownHosts =
     [(''github.com'', ''https://github.com''),
      (''github.io'', ''https://github.com''),
      (''github.org'', ''https://github.com''),
      (''githubusercontent.com'', ''https://github.com''),
      (''gitlab.com'', ''https://gitlab.com''),
      (''bitbucket.org'', ''https://bitbucket.org''),
      (''bitbucket.com'', ''https://bitbucket.org''),
      (''codeberg.org'', ''https://codeberg.org''),
      (''sr.ht'', ''https://sr.ht''),
      (''sourceforge.net'', ''https://sourceforge.net'')]"

definition knownSubdomains :: "string list" where
  "knownSubdomains = [''www'', ''ssh'', ''raw'', ''git'', ''wiki'', ''svn'']"

definition subdomainPrefixes :: "(string \<times> string) list" where
  "subdomainPrefixes =
     concat (map (\<lambda>(domain, c). map (\<lambda>subdomain. (subdomain @ ''.'' @ domain, domain))
                                     knownSubdomains) knownHosts)"

section \<open>Clean\<close>

text \<open>\<open>removeChars\<close> drops every byte of \<open>s\<close> that occurs in \<open>chars\<close>.\<close>

definition removeChars :: "string \<Rightarrow> string \<Rightarrow> string" where
  "removeChars s chars = filter (\<lambda>c. c \<notin> set chars) s"

text \<open>The bytes \<open>Clean\<close> removes: space, tab, line feed, carriage return, \<open>"\<close>, \<open>'\<close>, \<open>><()[]\<close>.\<close>

definition noiseChars :: "string" where
  "noiseChars = [CHR 0x20, CHR 0x09, CHR 0x0A, CHR 0x0D, CHR 0x22, CHR 0x27] @ ''><()[]''"

definition trimGitSuffix :: "unicode_lower \<Rightarrow> string \<Rightarrow> string" where
  "trimGitSuffix U s =
     (if 4 \<le> length s \<and> ToLower U (drop (length s - 4) s) = ''.git''
      then take (length s - 4) s
      else if 5 \<le> length s \<and> ToLower U (drop (length s - 5) s) = ''.git/''
      then take (length s - 5) s
      else s)"

definition schemes :: "string list" where
  "schemes =
     [''git+https://'', ''git+https:'',
      ''git+ssh://'', ''git+ssh:'',
      ''https://'', ''https:'',
      ''http://'', ''http:'',
      ''git://'', ''git:'',
      ''ssh://'', ''ssh:'',
      ''svn://'', ''svn:'',
      ''hg://'', ''hg:'',
      ''scm://'', ''scm:'']"

definition removeScheme :: "unicode_lower \<Rightarrow> string \<Rightarrow> string" where
  "removeScheme U s =
     (let sLower = ToLower U s
      in case find (\<lambda>scheme. prefix scheme sLower) schemes of
           Some scheme \<Rightarrow> drop (length scheme) s
         | None \<Rightarrow> s)"

text \<open>One pass of the loop of \<open>removeSchemes\<close>.\<close>

definition removeSchemesPass :: "unicode_lower \<Rightarrow> string \<Rightarrow> string" where
  "removeSchemesPass U s =
     (let sLower = ToLower U s;
          s1 = (if prefix ''scm:git:'' sLower then drop 8 s
                else if prefix ''scm:svn:'' sLower then drop 8 s
                else if prefix ''scm:hg:'' sLower then drop 7 s
                else s);
          s2 = removeScheme U s1;
          s3 = (if prefix ''git//'' (ToLower U s2) then drop 5 s2 else s2)
      in TrimLeftSlash s3)"

lemma removeScheme_drop: "\<exists>n. removeScheme U t = drop n t"
  by (cases "find (\<lambda>scheme. prefix scheme (ToLower U t)) schemes")
     (auto simp: removeScheme_def Let_def intro: exI [of _ 0])

lemma TrimLeftSlash_drop: "\<exists>n. TrimLeftSlash t = drop n t"
  unfolding TrimLeftSlash_def
  by (rule exI [of _ "length (takeWhile (\<lambda>c. c = CHR ''/'') t)"])
     (simp add: dropWhile_eq_drop)

lemma removeSchemesPass_drop: "\<exists>n. removeSchemesPass U s = drop n s"
proof -
  define s1 where "s1 = (if prefix ''scm:git:'' (ToLower U s) then drop 8 s
                else if prefix ''scm:svn:'' (ToLower U s) then drop 8 s
                else if prefix ''scm:hg:'' (ToLower U s) then drop 7 s
                else s)"
  define s2 where "s2 = removeScheme U s1"
  define s3 where "s3 = (if prefix ''git//'' (ToLower U s2) then drop 5 s2 else s2)"
  have 1: "\<exists>n. s1 = drop n s"
    unfolding s1_def by (metis drop_0)
  have 2: "\<exists>n. s2 = drop n s1"
    unfolding s2_def by (rule removeScheme_drop)
  have 3: "\<exists>n. s3 = drop n s2"
    unfolding s3_def by (metis drop_0)
  have 4: "\<exists>n. TrimLeftSlash s3 = drop n s3"
    by (rule TrimLeftSlash_drop)
  have "removeSchemesPass U s = TrimLeftSlash s3"
    unfolding removeSchemesPass_def Let_def s1_def s2_def s3_def ..
  with 1 2 3 4 show ?thesis
    by (metis drop_drop)
qed

lemma removeSchemesPass_shorter:
  assumes "removeSchemesPass U s \<noteq> s"
  shows "length (removeSchemesPass U s) < length s"
proof -
  obtain n where n: "removeSchemesPass U s = drop n s"
    using removeSchemesPass_drop by blast
  from assms n have "0 < n"
    by (cases n) auto
  moreover from assms n have "s \<noteq> []"
    by auto
  ultimately show ?thesis
    by (simp add: n)
qed

text \<open>
  \<open>removeSchemes\<close> repeats the pass until one changes nothing. Every pass that changes
  the string shortens it, so the loop ends.
\<close>

function removeSchemes :: "unicode_lower \<Rightarrow> string \<Rightarrow> string" where
  "removeSchemes U prev =
     (let s = removeSchemesPass U prev
      in if s = prev then s else removeSchemes U s)"
  by pat_completeness auto
termination
  by (relation "measure (\<lambda>(U, s). length s)") (auto simp: removeSchemesPass_shorter)

declare removeSchemes.simps [simp del]

definition removeAuth :: "string \<Rightarrow> string" where
  "removeAuth s =
     (let schemeEnd = (case Index s ''://'' of Some idx \<Rightarrow> idx + 3 | None \<Rightarrow> 0);
          rest = drop schemeEnd s
      in case LastIndex rest ''@'' of
           None \<Rightarrow> s
         | Some idx \<Rightarrow>
             if (case Index rest ''/'' of Some slashIdx \<Rightarrow> slashIdx \<le> idx | None \<Rightarrow> False)
             then s
             else
               (let afterAt = drop (idx + 1) rest
                in if \<not> Contains afterAt ''.'' \<and>
                      (case Index afterAt '':'' of
                         None \<Rightarrow> True
                       | Some colonIdx \<Rightarrow>
                           (case Index afterAt ''/'' of
                              Some slashInAfter \<Rightarrow> slashInAfter \<le> colonIdx
                            | None \<Rightarrow> False))
                   then s
                   else take schemeEnd s @ drop (idx + 1) rest))"

text \<open>
  In \<open>stripKnownSubdomains\<close>, \<open>hostEnd s\<close> is the variable \<open>end\<close>: the index of the first
  \<open>/\<close> or \<open>:\<close>, or the length of \<open>s\<close>.
\<close>

definition hostEnd :: "string \<Rightarrow> nat" where
  "hostEnd s =
     (let end1 = (case Index s ''/'' of Some idx \<Rightarrow> if idx < length s then idx else length s
                  | None \<Rightarrow> length s)
      in case Index s '':'' of Some idx \<Rightarrow> if idx < end1 then idx else end1 | None \<Rightarrow> end1)"

definition stripKnownSubdomains :: "unicode_lower \<Rightarrow> string \<Rightarrow> string" where
  "stripKnownSubdomains U s =
     (if \<not> Contains s ''.'' then s
      else case map_of subdomainPrefixes (ToLower U (take (hostEnd s) s)) of
             Some domain \<Rightarrow> domain @ drop (hostEnd s) s
           | None \<Rightarrow> s)"

definition isDigit :: "char \<Rightarrow> bool" where
  "isDigit c = ((48::nat) \<le> of_char c \<and> (of_char c :: nat) \<le> 57)"

definition normalizeColonSeparator :: "string \<Rightarrow> string" where
  "normalizeColonSeparator s =
     (case Index s '':'' of
        None \<Rightarrow> s
      | Some idx \<Rightarrow>
          (let afterColon = drop (idx + 1) s
           in if 0 < length afterColon \<and> hd afterColon = CHR ''/'' then s
              else if 0 < length afterColon \<and> isDigit (hd afterColon) then s
              else take idx s @ ''/'' @ afterColon))"

lemma ReplaceAllSlashes_length: "length (ReplaceAllSlashes s) \<le> length s"
  by (induction s rule: ReplaceAllSlashes.induct) auto

lemma Contains_slashes_Cons:
  "Contains (a # b # cs) ''//'' = ((a = CHR ''/'' \<and> b = CHR ''/'') \<or> Contains (b # cs) ''//'')"
proof -
  have p: "prefix ''//'' (a # b # cs) = (a = CHR ''/'' \<and> b = CHR ''/'')"
    by auto
  have "Index (a # b # cs) ''//'' =
      (if prefix ''//'' (a # b # cs) then Some 0 else map_option Suc (Index (b # cs) ''//''))"
    by (rule Index.simps(2))
  then show ?thesis
    unfolding Contains_def p by (auto simp del: Index.simps)
qed

lemma ReplaceAllSlashes_shorter:
  "Contains s ''//'' \<Longrightarrow> length (ReplaceAllSlashes s) < length s"
proof (induction s rule: ReplaceAllSlashes.induct)
  case (1 a b cs)
  show ?case
  proof (cases "a = CHR ''/'' \<and> b = CHR ''/''")
    case True
    then show ?thesis
      using ReplaceAllSlashes_length [of cs] by simp
  next
    case False
    with "1.prems" have c: "Contains (b # cs) ''//''"
      by (simp only: Contains_slashes_Cons) blast
    from False have "ReplaceAllSlashes (a # b # cs) = a # ReplaceAllSlashes (b # cs)"
      by auto
    moreover have "length (ReplaceAllSlashes (b # cs)) < length (b # cs)"
      using "1.IH"(2) [OF False c] .
    ultimately show ?thesis
      by simp
  qed
qed (auto simp: Contains_def)

text \<open>The loop \<open>for strings.Contains(s, "//") { s = strings.ReplaceAll(s, "//", "/") }\<close>.\<close>

function collapseSlashes :: "string \<Rightarrow> string" where
  "collapseSlashes s =
     (if Contains s ''//'' then collapseSlashes (ReplaceAllSlashes s) else s)"
  by pat_completeness auto
termination
  by (relation "measure length") (auto simp: ReplaceAllSlashes_shorter)

declare collapseSlashes.simps [simp del]

text \<open>The two truncations of \<open>Clean\<close>, at the first \<open>#\<close> and at the first \<open>?\<close>.\<close>

definition cutAt :: "string \<Rightarrow> string \<Rightarrow> string" where
  "cutAt s sep = (case Index s sep of Some idx \<Rightarrow> take idx s | None \<Rightarrow> s)"

definition Clean :: "unicode_lower \<Rightarrow> string \<Rightarrow> string" where
  "Clean U rawURL =
     (let s = TrimSpace rawURL
      in if s = [] then []
         else
           (let s = removeChars s noiseChars;
                s = cutAt s ''#'';
                s = cutAt s ''?'';
                s = removeAuth s;
                s = TrimPrefix s ''='';
                s = removeSchemes U s;
                s = stripKnownSubdomains U s;
                s = trimGitSuffix U s;
                s = TrimSuffix s ''/'';
                s = normalizeColonSeparator s
            in collapseSlashes s))"

section \<open>The GitHub Pages pattern\<close>

text \<open>
  \<open>githubioRe\<close> is the regular expression
  \<^verbatim>\<open>(?i)^([\w.-]+)\.github\.(io|com|org)(?:$|/)\<close>.
  The class \<open>[\w.-]\<close> has no \<open>/\<close>, and the pattern ends at the end of the text or at a
  \<open>/\<close>; so it matches exactly when the text before the first \<open>/\<close> (the whole text when
  there is none) is a non-empty run of the class, then \<open>.github.\<close>, then one of \<open>io\<close>,
  \<open>com\<close>, \<open>org\<close>, letters in either case. That text ends in one of the three only, so
  the match is unique. Under \<open>(?i)\<close> Go folds the class too: besides the ASCII letters,
  digits, \<open>_\<close>, \<open>.\<close> and \<open>-\<close> it has U+017F (bytes \<open>C5 BF\<close>) and U+212A (bytes
  \<open>E2 84 AA\<close>), the case variants of \<open>s\<close> and \<open>k\<close>. \<open>githubioRe s\<close> is
  \<open>Some (user, tld, rest)\<close> for a match: the first group, the second group as it is
  written, and the text after the match (what \<open>ReplaceAllString(s, "")\<close> leaves).
\<close>

definition isWordByte :: "char \<Rightarrow> bool" where
  "isWordByte c =
     (((48::nat) \<le> of_char c \<and> (of_char c :: nat) \<le> 57) \<or>
      ((65::nat) \<le> of_char c \<and> (of_char c :: nat) \<le> 90) \<or>
      ((97::nat) \<le> of_char c \<and> (of_char c :: nat) \<le> 122) \<or>
      c = CHR ''_'')"

fun userRunes :: "string \<Rightarrow> bool" where
  "userRunes [] = True"
| "userRunes (c # cs) =
     (if isWordByte c \<or> c = CHR ''.'' \<or> c = CHR ''-'' then userRunes cs
      else if c = CHR 0xC5 then
        (case cs of d # ds \<Rightarrow> d = CHR 0xBF \<and> userRunes ds | [] \<Rightarrow> False)
      else if c = CHR 0xE2 then
        (case cs of
           d # e # es \<Rightarrow> d = CHR 0x84 \<and> e = CHR 0xAA \<and> userRunes es
         | _ \<Rightarrow> False)
      else False)"

definition githubioRe :: "string \<Rightarrow> (string \<times> string \<times> string) option" where
  "githubioRe s =
     (let seg = takeWhile (\<lambda>c. c \<noteq> CHR ''/'') s
      in case find (\<lambda>tld. suffix (''.github.'' @ tld) (map lowerByte seg))
                [''io'', ''com'', ''org''] of
           None \<Rightarrow> None
         | Some tld \<Rightarrow>
             (let user = take (length seg - (8 + length tld)) seg
              in if user \<noteq> [] \<and> userRunes user
                 then Some (user, drop (length seg - length tld) seg,
                            drop (length seg + 1) s)
                 else None))"

section \<open>Extractor\<close>

definition ExtractPath :: "unicode_lower \<Rightarrow> string \<Rightarrow> string" where
  "ExtractPath U rawURL =
     (let s = Clean U rawURL
      in if s = [] then []
         else case githubioRe s of
                Some (user, tld, rest) \<Rightarrow> if rest \<noteq> [] then user @ ''/'' @ rest else []
              | None \<Rightarrow>
                  (case Index s ''/'' of
                     None \<Rightarrow> []
                   | Some idx \<Rightarrow>
                       if idx = length s - 1 then []
                       else collapseSlashes (drop (idx + 1) s)))"

text \<open>The part of \<open>ExtractOwnerRepo\<close> after the call of \<open>ExtractPath\<close>.\<close>

definition ownerRepoOf :: "string \<Rightarrow> string" where
  "ownerRepoOf path =
     (if path = [] then []
      else case Index path ''/'' of
             None \<Rightarrow> []
           | Some firstSlash \<Rightarrow>
               (let owner = take firstSlash path;
                    rest = drop (firstSlash + 1) path
                in if owner = [] \<or> rest = [] then []
                   else
                     (let repo = (case Index rest ''/'' of
                                    None \<Rightarrow> rest
                                  | Some secondSlash \<Rightarrow> take secondSlash rest)
                      in if repo = [] then [] else owner @ ''/'' @ repo)))"

definition ExtractOwnerRepo :: "unicode_lower \<Rightarrow> string \<Rightarrow> string" where
  "ExtractOwnerRepo U rawURL = ownerRepoOf (ExtractPath U rawURL)"

definition ExtractHost :: "unicode_lower \<Rightarrow> string \<Rightarrow> string" where
  "ExtractHost U rawURL =
     (let s = Clean U rawURL
      in if s = [] then []
         else case githubioRe s of
                Some (user, tld, rest) \<Rightarrow> ''github.'' @ tld
              | None \<Rightarrow>
                  (case Index s ''/'' of None \<Rightarrow> s | Some idx \<Rightarrow> take idx s))"

section \<open>Host canonicalization and the public operations\<close>

text \<open>
  The loop of \<open>canonicalizeHost\<close> over \<open>knownHosts\<close> returns at the first domain that
  \<open>hostLower\<close> ends with (after a dot). Go visits a map in no fixed order; no host ends
  with two of the domains (lemma \<open>suffixDomain_unique\<close> below), so the order does not
  matter.
\<close>

fun suffixDomain :: "string \<Rightarrow> (string \<times> string) list \<Rightarrow> (string \<times> string) option" where
  "suffixDomain hostLower [] = None"
| "suffixDomain hostLower ((domain, c) # hosts) =
     (if suffix (''.'' @ domain) hostLower then Some (domain, c)
      else suffixDomain hostLower hosts)"

definition canonicalizeHost :: "unicode_lower \<Rightarrow> string \<Rightarrow> string \<times> string" where
  "canonicalizeHost U host =
     (let hostLower = ToLower U host
      in case map_of knownHosts hostLower of
           Some c \<Rightarrow> (c, hostLower)
         | None \<Rightarrow>
             (case suffixDomain hostLower knownHosts of
                Some (domain, c) \<Rightarrow>
                  (let subdomain = TrimSuffix hostLower (''.'' @ domain)
                   in if subdomain \<in> set knownSubdomains then (c, domain)
                      else (c, hostLower))
              | None \<Rightarrow> ([], host)))"

definition Parse :: "unicode_lower \<Rightarrow> string \<Rightarrow> string" where
  "Parse U rawURL =
     (let ownerRepo = ExtractOwnerRepo U rawURL
      in if ownerRepo = [] then []
         else
           (let host = ExtractHost U rawURL
            in if host = [] then []
               else case canonicalizeHost U host of
                      (canonical, normalizedHost) \<Rightarrow>
                        if canonical \<noteq> [] then canonical @ ''/'' @ ownerRepo
                        else ''https://'' @ normalizedHost @ ''/'' @ ownerRepo))"

definition IsKnownHost :: "unicode_lower \<Rightarrow> string \<Rightarrow> bool" where
  "IsKnownHost U rawURL =
     (let host = ToLower U (ExtractHost U rawURL)
      in if host = [] then False
         else if map_of knownHosts host \<noteq> None then True
         else suffixDomain host knownHosts \<noteq> None)"

definition Normalize :: "unicode_lower \<Rightarrow> string \<Rightarrow> string" where
  "Normalize U rawURL =
     (let s = TrimSpace rawURL
      in if s = [] then []
         else
           (let s = removeAuth s;
                s = removeSchemes U s;
                s = trimGitSuffix U s;
                s = TrimSuffix s ''/'';
                s = normalizeColonSeparator s
            in if \<not> prefix ''http://'' s \<and> \<not> prefix ''https://'' s
               then ''https://'' @ s else s))"

definition CanonicalURL :: "unicode_lower \<Rightarrow> string \<Rightarrow> string" where
  "CanonicalURL U rawURL = (if \<not> IsKnownHost U rawURL then [] else Parse U rawURL)"

record RepoURL =
  Host :: string
  Owner :: string
  Repo :: string

text \<open>\<open>ParseURL\<close> returns a pointer; \<open>nil\<close> is \<open>None\<close>.\<close>

definition ParseURL :: "unicode_lower \<Rightarrow> string \<Rightarrow> RepoURL option" where
  "ParseURL U rawURL =
     (let ownerRepo = ExtractOwnerRepo U rawURL
      in if ownerRepo = [] then None
         else case Index ownerRepo ''/'' of
                None \<Rightarrow> None
              | Some idx \<Rightarrow>
                  Some \<lparr>Host = ExtractHost U rawURL,
                        Owner = take idx ownerRepo,
                        Repo = drop (idx + 1) ownerRepo\<rparr>)"

text \<open>
  In \<open>ParseURL\<close> the source slices \<open>ownerRepo\<close> at \<open>strings.Index(ownerRepo, "/")\<close>
  without a test; a non-empty result of \<open>ExtractOwnerRepo\<close> always has a \<open>/\<close> (lemma
  \<open>ownerRepoOf_shape\<close> below), so the branch \<open>None\<close> above, where Go would panic, is
  never taken.
\<close>

definition String :: "unicode_lower \<Rightarrow> RepoURL option \<Rightarrow> string" where
  "String U r =
     (case r of
        None \<Rightarrow> []
      | Some r \<Rightarrow>
          (case canonicalizeHost U (Host r) of
             (canonical, normalizedHost) \<Rightarrow>
               if canonical \<noteq> [] then canonical @ ''/'' @ Owner r @ ''/'' @ Repo r
               else ''https://'' @ normalizedHost @ ''/'' @ Owner r @ ''/'' @ Repo r))"

definition OwnerRepo :: "RepoURL option \<Rightarrow> string" where
  "OwnerRepo r = (case r of None \<Rightarrow> [] | Some r \<Rightarrow> Owner r @ ''/'' @ Repo r)"

subsection \<open>ParseFromMap and FirstRepoURL\<close>

text \<open>
  The map \<open>m\<close> is an association list: \<open>m[key]\<close> is \<open>map_of m key\<close>, and the list's order
  stands for the order in which \<open>range m\<close> happens to visit the entries, which Go leaves
  open; the theorems hold for every order.
\<close>

definition defaultPriorityKeys :: "string list" where
  "defaultPriorityKeys =
     [''repository'', ''Repository'', ''source'', ''Source'', ''source_code'',
      ''Source Code'', ''Code'']"

fun priorityScan :: "unicode_lower \<Rightarrow> (string \<times> string) list \<Rightarrow> string list \<Rightarrow> string option" where
  "priorityScan U m [] = None"
| "priorityScan U m (key # keys) =
     (case map_of m key of
        Some val \<Rightarrow>
          if val \<noteq> [] \<and> Parse U val \<noteq> [] then Some (Parse U val)
          else priorityScan U m keys
      | None \<Rightarrow> priorityScan U m keys)"

fun fallbackScan :: "unicode_lower \<Rightarrow> (string \<times> string) list \<Rightarrow> string" where
  "fallbackScan U [] = []"
| "fallbackScan U ((key, val) # entries) =
     (if Parse U val \<noteq> [] then
        (if Contains val ''/sponsors'' then fallbackScan U entries else Parse U val)
      else fallbackScan U entries)"

definition ParseFromMap :: "unicode_lower \<Rightarrow> (string \<times> string) list \<Rightarrow> string list \<Rightarrow> string" where
  "ParseFromMap U m priorityKeys =
     (case priorityScan U m (if priorityKeys = [] then defaultPriorityKeys else priorityKeys) of
        Some result \<Rightarrow> result
      | None \<Rightarrow> fallbackScan U m)"

fun FirstRepoURL :: "unicode_lower \<Rightarrow> string list \<Rightarrow> string" where
  "FirstRepoURL U [] = []"
| "FirstRepoURL U (u # urls) =
     (if u = [] then FirstRepoURL U urls
      else if Parse U u \<noteq> [] then Parse U u
      else FirstRepoURL U urls)"
section \<open>Auxiliary notions\<close>

text \<open>
  A text is \<open>tidy\<close> when it has none of the bytes that \<open>Clean\<close> removes in its first
  steps: the noise characters, \<open>#\<close> and \<open>?\<close>.
\<close>

definition tidy :: "string \<Rightarrow> bool" where
  "tidy s = (\<forall>c\<in>set s. c \<notin> set noiseChars \<and> c \<noteq> CHR ''#'' \<and> c \<noteq> CHR ''?'')"

text \<open>
  \<open>baseURL U host\<close> is what \<open>Parse\<close> and \<open>String\<close> put before the owner: the canonical
  base of a known host, or \<open>https://\<close> and the host.
\<close>

definition baseURL :: "unicode_lower \<Rightarrow> string \<Rightarrow> string" where
  "baseURL U host =
     (case canonicalizeHost U host of
        (canonical, normalizedHost) \<Rightarrow>
          if canonical \<noteq> [] then canonical else ''https://'' @ normalizedHost)"

section \<open>Facts about the string functions\<close>

subsection \<open>Searching\<close>

lemma Index_char:
  "Index s [c] = (if c \<in> set s then Some (length (takeWhile (\<lambda>x. x \<noteq> c) s)) else None)"
  by (induction s) auto

lemma Index_char_None: "Index s [c] = None \<longleftrightarrow> c \<notin> set s"
  by (simp add: Index_char)

lemma Index_char_take:
  "Index s [c] = Some i \<Longrightarrow> take i s = takeWhile (\<lambda>x. x \<noteq> c) s"
  by (auto simp: Index_char takeWhile_eq_take [symmetric] split: if_splits)

lemma Index_char_drop:
  assumes "Index s [c] = Some i"
  shows "drop (Suc i) s = tl (dropWhile (\<lambda>x. x \<noteq> c) s)"
proof -
  from assms have i: "i = length (takeWhile (\<lambda>x. x \<noteq> c) s)"
    by (auto simp: Index_char split: if_splits)
  have "tl (dropWhile (\<lambda>x. x \<noteq> c) s) = tl (drop i s)"
    unfolding i by (simp only: dropWhile_eq_drop [symmetric])
  also have "\<dots> = drop (Suc i) s"
    by (simp add: drop_Suc tl_drop)
  finally show ?thesis ..
qed

lemma Index_char_append:
  "c \<notin> set a \<Longrightarrow> Index (a @ c # b) [c] = Some (length a)"
  by (induction a) auto

lemma cut_char:
  "(case Index s [c] of None \<Rightarrow> s | Some j \<Rightarrow> take j s) = takeWhile (\<lambda>x. x \<noteq> c) s"
proof (cases "Index s [c]")
  case None
  then have "c \<notin> set s"
    by (simp add: Index_char_None)
  then have "takeWhile (\<lambda>x. x \<noteq> c) s = s"
    by (simp add: takeWhile_eq_all_conv) blast
  with None show ?thesis by (simp del: takeWhile_eq_all_conv)
next
  case (Some j)
  then show ?thesis
    by (simp add: Index_char_take)
qed

lemma cutAt_char: "cutAt s [c] = takeWhile (\<lambda>x. x \<noteq> c) s"
  unfolding cutAt_def by (rule cut_char)

lemma LastIndex_char_None: "c \<notin> set s \<Longrightarrow> LastIndex s [c] = None"
  by (induction s) auto

lemma Index_None_drop: "Index s p = None \<Longrightarrow> Index (drop n s) p = None"
proof (induction s arbitrary: n)
  case Nil
  then show ?case by simp
next
  case (Cons c cs)
  then show ?case
    by (cases n) (auto split: if_splits)
qed

lemma Contains_drop: "\<not> Contains s p \<Longrightarrow> \<not> Contains (drop n s) p"
  by (simp add: Contains_def Index_None_drop)

lemma find_SomeD: "find P xs = Some x \<Longrightarrow> P x \<and> x \<in> set xs"
  by (induction xs) (auto split: if_splits)

subsection \<open>Lower case and ASCII\<close>

lemma ToLower_Nil: "ToLower U [] = []"
  by (simp add: ToLower_def isASCII_def)

lemma ToLower_ASCII: "isASCII s \<Longrightarrow> ToLower U s = map lowerByte s"
  by (simp add: ToLower_def)

lemma isASCII_mem: "isASCII s \<Longrightarrow> c \<in> set s \<Longrightarrow> \<not> digit7 c"
  by (simp add: isASCII_code list_all_iff)

lemma isASCII_subset: "isASCII s \<Longrightarrow> set t \<subseteq> set s \<Longrightarrow> isASCII t"
  by (auto simp: isASCII_def list_all_iff)

lemma isASCII_drop: "isASCII s \<Longrightarrow> isASCII (drop n s)"
  using set_drop_subset by (rule isASCII_subset [rotated])

lemma isASCII_take: "isASCII s \<Longrightarrow> isASCII (take n s)"
  using set_take_subset by (rule isASCII_subset [rotated])

lemma lowerByte_slash: "lowerByte c = CHR ''/'' \<longleftrightarrow> c = CHR ''/''"
  by (cases c) (auto simp: lowerByte_code)

lemma lowerByte_colon: "lowerByte c = CHR '':'' \<longleftrightarrow> c = CHR '':''"
  by (cases c) (auto simp: lowerByte_code)

lemma colon_lower: "CHR '':'' \<in> set (map lowerByte s) \<longleftrightarrow> CHR '':'' \<in> set s"
proof -
  have "(CHR '':'' = lowerByte c) = (c = CHR '':'')" for c
    using lowerByte_colon [of c] by metis
  then show ?thesis
    by (auto simp: image_iff)
qed

subsection \<open>White space\<close>

lemma unicodeSpaces_bytes:
  "\<forall>w\<in>set unicodeSpaces. w \<noteq> [] \<and> digit7 (hd w) \<and> digit7 (last w)"
  by code_simp

lemma TrimSpace_ASCII:
  assumes "isASCII s" and "s \<noteq> []" and "\<not> asciiSpace (hd s)" and "\<not> asciiSpace (last s)"
  shows "TrimSpace s = s"
proof -
  have h: "\<not> digit7 (hd s)" "\<not> digit7 (last s)"
    using assms(1,2) isASCII_mem [of s "hd s"] isASCII_mem [of s "last s"] by auto
  have "\<not> prefix w s" if "w \<in> set unicodeSpaces" for w
  proof
    assume p: "prefix w s"
    from that unicodeSpaces_bytes have w: "w \<noteq> []" "digit7 (hd w)" by auto
    from p w(1) have "hd w = hd s"
      by (auto simp: prefix_def)
    with w(2) h(1) show False by simp
  qed
  then have "find (\<lambda>w. prefix w s) unicodeSpaces = None"
    by (simp add: find_None_iff)
  with assms(2,3) have l: "spaceWidth s = 0"
    by (cases s) (simp_all add: spaceWidth_def)
  have "\<not> suffix w s" if "w \<in> set unicodeSpaces" for w
  proof
    assume p: "suffix w s"
    from that unicodeSpaces_bytes have w: "w \<noteq> []" "digit7 (last w)" by auto
    from p w(1) have "last w = last s"
      by (auto simp: suffix_def)
    with w(2) h(2) show False by simp
  qed
  then have "find (\<lambda>w. suffix w s) unicodeSpaces = None"
    by (simp add: find_None_iff)
  with assms(2,4) have r: "spaceWidthEnd s = 0"
    by (simp add: spaceWidthEnd_def)
  from l r show ?thesis
    by (simp add: TrimSpace_def TrimLeftSpace.simps [of s] TrimRightSpace.simps [of s])
qed

subsection \<open>Owner and repository\<close>

lemma ownerRepoOf_eq:
  "ownerRepoOf p =
     (if CHR ''/'' \<in> set p \<and> takeWhile (\<lambda>x. x \<noteq> CHR ''/'') p \<noteq> [] \<and>
         takeWhile (\<lambda>x. x \<noteq> CHR ''/'') (tl (dropWhile (\<lambda>x. x \<noteq> CHR ''/'') p)) \<noteq> []
      then takeWhile (\<lambda>x. x \<noteq> CHR ''/'') p @ ''/'' @
           takeWhile (\<lambda>x. x \<noteq> CHR ''/'') (tl (dropWhile (\<lambda>x. x \<noteq> CHR ''/'') p))
      else [])"
proof (cases "Index p ''/''")
  case None
  then have "CHR ''/'' \<notin> set p"
    by (simp add: Index_char_None)
  with None show ?thesis
    by (simp add: ownerRepoOf_def)
next
  case (Some i)
  then have in_p: "CHR ''/'' \<in> set p"
    by (simp add: Index_char split: if_splits)
  then have ne: "p \<noteq> []" by auto
  have t: "take i p = takeWhile (\<lambda>x. x \<noteq> CHR ''/'') p"
    using Some by (rule Index_char_take)
  have d: "drop (i + 1) p = tl (dropWhile (\<lambda>x. x \<noteq> CHR ''/'') p)"
    using Index_char_drop [OF Some] by simp
  show ?thesis
    unfolding ownerRepoOf_def Let_def Some option.case cut_char t d
    using in_p ne by auto
qed

lemma ownerRepoOf_shape:
  assumes "ownerRepoOf p \<noteq> []"
  shows "\<exists>owner repo. ownerRepoOf p = owner @ ''/'' @ repo \<and> owner \<noteq> [] \<and> repo \<noteq> [] \<and>
           CHR ''/'' \<notin> set owner \<and> CHR ''/'' \<notin> set repo"
proof -
  define owner where "owner = takeWhile (\<lambda>x. x \<noteq> CHR ''/'') p"
  define repo where
    "repo = takeWhile (\<lambda>x. x \<noteq> CHR ''/'') (tl (dropWhile (\<lambda>x. x \<noteq> CHR ''/'') p))"
  from assms have "ownerRepoOf p = owner @ ''/'' @ repo" "owner \<noteq> []" "repo \<noteq> []"
    unfolding owner_def repo_def by (auto simp: ownerRepoOf_eq split: if_splits)
  moreover have "CHR ''/'' \<notin> set owner" "CHR ''/'' \<notin> set repo"
    unfolding owner_def repo_def by (auto dest: set_takeWhileD)
  ultimately show ?thesis by blast
qed

lemma ownerRepoOf_no_slash: "CHR ''/'' \<notin> set p \<Longrightarrow> ownerRepoOf p = []"
  by (simp add: ownerRepoOf_eq)

lemma set_ownerRepoOf: "set (ownerRepoOf p) \<subseteq> set p"
proof -
  have "set (takeWhile P (tl (dropWhile P p))) \<subseteq> set p" for P :: "char \<Rightarrow> bool"
    by (metis set_takeWhileD set_dropWhileD list.set_sel(2) subsetI tl_Nil)
  moreover have "set (takeWhile P p) \<subseteq> set p" for P :: "char \<Rightarrow> bool"
    by (auto dest: set_takeWhileD)
  ultimately show ?thesis
    by (auto simp: ownerRepoOf_eq)
qed

lemma Parse_no_ownerRepo: "ExtractOwnerRepo U raw = [] \<Longrightarrow> Parse U raw = []"
  by (simp add: Parse_def)

lemma ParseURL_shape:
  assumes "ExtractOwnerRepo U rawURL \<noteq> []"
  shows "\<exists>ow r. ow \<noteq> [] \<and> r \<noteq> [] \<and> ExtractOwnerRepo U rawURL = ow @ ''/'' @ r \<and>
           ParseURL U rawURL = Some \<lparr>Host = ExtractHost U rawURL, Owner = ow, Repo = r\<rparr>"
proof -
  from assms obtain ow r where
    eq: "ExtractOwnerRepo U rawURL = ow @ ''/'' @ r"
    and o: "ow \<noteq> []" "CHR ''/'' \<notin> set ow" and p: "r \<noteq> []"
    unfolding ExtractOwnerRepo_def using ownerRepoOf_shape by blast
  have idx: "Index (ow @ ''/'' @ r) ''/'' = Some (length ow)"
    using o(2) Index_char_append [of "CHR ''/''" ow r] by simp
  have "ParseURL U rawURL = Some \<lparr>Host = ExtractHost U rawURL, Owner = ow, Repo = r\<rparr>"
    unfolding ParseURL_def Let_def eq idx option.case
    by simp
  with eq o(1) p show ?thesis by blast
qed

text \<open>
  \<open>ParseURL\<close> never slices at a missing \<open>/\<close>: it returns \<open>nil\<close> exactly for an empty
  owner and repository.
\<close>

lemma ParseURL_None: "ParseURL U rawURL = None \<longleftrightarrow> ExtractOwnerRepo U rawURL = []"
proof (cases "ExtractOwnerRepo U rawURL = []")
  case True
  then show ?thesis by (simp add: ParseURL_def)
next
  case False
  then show ?thesis using ParseURL_shape [of U rawURL] by auto
qed

subsection \<open>Slashes\<close>

lemma Contains_slashes_mem: "Contains s ''//'' \<Longrightarrow> CHR ''/'' \<in> set s"
  by (induction s) (auto simp: Contains_def split: if_splits)

lemma collapseSlashes_id: "\<not> Contains s ''//'' \<Longrightarrow> collapseSlashes s = s"
  by (simp add: collapseSlashes.simps)

lemma set_ReplaceAllSlashes: "set (ReplaceAllSlashes s) \<subseteq> set s"
  by (induction s rule: ReplaceAllSlashes.induct) auto

lemma set_collapseSlashes: "set (collapseSlashes s) \<subseteq> set s"
proof (induction s rule: collapseSlashes.induct)
  case (1 s)
  show ?case
  proof (cases "Contains s ''//''")
    case True
    with "1.IH" set_ReplaceAllSlashes [of s] show ?thesis
      by (subst collapseSlashes.simps) auto
  next
    case False
    then show ?thesis
      by (subst collapseSlashes.simps) simp
  qed
qed

lemma collapseSlashes_no_double: "\<not> Contains (collapseSlashes s) ''//''"
proof (induction s rule: collapseSlashes.induct)
  case (1 s)
  show ?case
  proof (cases "Contains s ''//''")
    case True
    with "1.IH" show ?thesis
      by (subst collapseSlashes.simps) simp
  next
    case False
    then show ?thesis
      by (subst collapseSlashes.simps) simp
  qed
qed

lemma count_one_drop:
  assumes "count_list s c = 1" and "Index s [c] = Some i"
  shows "c \<notin> set (drop (i + 1) s)"
proof -
  have s: "s = takeWhile (\<lambda>x. x \<noteq> c) s @ dropWhile (\<lambda>x. x \<noteq> c) s" by simp
  from assms(2) have "c \<in> set s" by (simp add: Index_char split: if_splits)
  then have "dropWhile (\<lambda>x. x \<noteq> c) s \<noteq> []" by (simp add: dropWhile_eq_Nil_conv) 
  then obtain t where d: "dropWhile (\<lambda>x. x \<noteq> c) s = c # t"
    using hd_dropWhile [of "\<lambda>x. x \<noteq> c" s] by (cases "dropWhile (\<lambda>x. x \<noteq> c) s") auto
  have "count_list (takeWhile (\<lambda>x. x \<noteq> c) s) c = 0"
    by (rule count_notin) (auto dest: set_takeWhileD)
  moreover have "count_list s c = count_list (takeWhile (\<lambda>x. x \<noteq> c) s) c + count_list (c # t) c"
    by (subst s, simp only: count_list_append d)
  ultimately have "count_list t c = 0" using assms(1) by simp
  then have "c \<notin> set t" by (simp add: count_list_0_iff)
  moreover have "drop (i + 1) s = t"
    using Index_char_drop [OF assms(2)] d by simp
  ultimately show ?thesis by simp
qed

lemma Contains_slashes_append:
  assumes "CHR ''/'' \<notin> set a"
  shows "Contains (a @ CHR ''/'' # b) ''//'' \<longleftrightarrow> (b \<noteq> [] \<and> hd b = CHR ''/'') \<or> Contains b ''//''"
  using assms
proof (induction a)
  case Nil
  show ?case
  proof (cases b)
    case Nil
    then show ?thesis by (simp add: Contains_def)
  next
    case (Cons x b')
    then show ?thesis
      using Contains_slashes_Cons [of "CHR ''/''" x b'] by simp
  qed
next
  case (Cons y a)
  obtain z cs where z: "a @ CHR ''/'' # b = z # cs"
    by (cases "a @ CHR ''/'' # b") auto
  have "Contains (y # z # cs) ''//'' = ((y = CHR ''/'' \<and> z = CHR ''/'') \<or> Contains (z # cs) ''//'')"
    by (rule Contains_slashes_Cons)
  with Cons z show ?case by auto
qed

lemma segments_no_double_slash:
  assumes "CHR ''/'' \<notin> set H" "ow \<noteq> []" "CHR ''/'' \<notin> set ow" "r \<noteq> []" "CHR ''/'' \<notin> set r"
  shows "\<not> Contains (H @ CHR ''/'' # ow @ CHR ''/'' # r) ''//''"
proof -
  have "\<not> Contains r ''//''"
    using assms(5) Contains_slashes_mem by blast
  moreover have "hd r \<noteq> CHR ''/''"
    using assms(4,5) by (cases r) auto
  ultimately have "\<not> Contains (ow @ CHR ''/'' # r) ''//''"
    using assms(3) by (simp add: Contains_slashes_append)
  moreover have "hd (ow @ CHR ''/'' # r) \<noteq> CHR ''/''"
    using assms(2,3) by (cases ow) auto
  ultimately show ?thesis
    using assms(1) by (simp add: Contains_slashes_append)
qed

lemma git_slashes_prefix:
  assumes "prefix ''git//'' (map lowerByte s)"
  shows "Contains s ''//''"
proof -
  from assms obtain a0 a1 a2 a3 a4 t where s: "s = a0 # a1 # a2 # a3 # a4 # t"
    and "lowerByte a3 = CHR ''/''" "lowerByte a4 = CHR ''/''"
    by (auto simp: prefix_def map_eq_Cons_conv)
  then have "s = a0 # a1 # a2 # CHR ''/'' # CHR ''/'' # t"
    by (simp add: lowerByte_slash)
  then show ?thesis
    by (simp add: Contains_slashes_Cons)
qed

lemma takeWhile_seg: "CHR ''/'' \<notin> set h \<Longrightarrow> takeWhile (\<lambda>c. c \<noteq> CHR ''/'') (h @ CHR ''/'' # rest) = h"
  by (induction h) auto

subsection \<open>The GitHub Pages pattern\<close>

lemma githubioRe_rest:
  "githubioRe s = Some (user, tld, rest) \<Longrightarrow>
     rest = drop (length (takeWhile (\<lambda>c. c \<noteq> CHR ''/'') s) + 1) s"
  by (auto simp: githubioRe_def Let_def split: option.splits if_splits)

lemma githubioRe_None_find:
  assumes "find (\<lambda>tld. suffix (''.github.'' @ tld) (map lowerByte h)) [''io'', ''com'', ''org''] = None"
    and "CHR ''/'' \<notin> set h"
  shows "githubioRe (h @ CHR ''/'' # rest) = None"
  using assms by (simp add: githubioRe_def takeWhile_seg Let_def del: find.simps)

lemma githubioRe_None_seg:
  assumes "githubioRe s = None"
    and "takeWhile (\<lambda>c. c \<noteq> CHR ''/'') t = takeWhile (\<lambda>c. c \<noteq> CHR ''/'') s"
  shows "githubioRe t = None"
  using assms
  by (auto simp: githubioRe_def Let_def split: option.splits if_splits simp del: find.simps)

lemma githubioRe_Some:
  assumes "githubioRe s = Some (user, tld, rest)"
  shows "\<exists>t\<in>set [''io'', ''com'', ''org'']. map lowerByte tld = t"
proof -
  define seg where "seg = takeWhile (\<lambda>c. c \<noteq> CHR ''/'') s"
  from assms obtain t where
    t: "find (\<lambda>tld. suffix (''.github.'' @ tld) (map lowerByte seg)) [''io'', ''com'', ''org''] = Some t"
    and tld: "tld = drop (length seg - length t) seg"
    by (auto simp: githubioRe_def Let_def seg_def split: option.splits if_splits
        simp del: find.simps)
  from t have mem: "t \<in> set [''io'', ''com'', ''org'']"
    and suf: "suffix (''.github.'' @ t) (map lowerByte seg)"
    by (auto dest!: find_SomeD simp del: find.simps)
  from suf obtain x where x: "map lowerByte seg = x @ ''.github.'' @ t"
    by (auto simp: suffix_def)
  then have "length (map lowerByte seg) = length (x @ ''.github.'' @ t)"
    by (rule arg_cong)
  then have "length seg = length x + 8 + length t"
    by simp
  then have "drop (length seg - length t) (map lowerByte seg) = t"
    by (simp add: x)
  then have "map lowerByte tld = t"
    by (simp add: tld drop_map)
  with mem show ?thesis by blast
qed

lemma githubioRe_parts:
  assumes "githubioRe s = Some (user, tld, rest)"
  shows "set user \<subseteq> set s \<and> set tld \<subseteq> set s \<and> set rest \<subseteq> set s"
proof -
  define seg where "seg = takeWhile (\<lambda>c. c \<noteq> CHR ''/'') s"
  have seg: "set seg \<subseteq> set s"
    unfolding seg_def by (auto dest: set_takeWhileD)
  from assms obtain n k where "user = take n seg" "tld = drop k seg" "rest = drop (length seg + 1) s"
    by (auto simp: githubioRe_def Let_def seg_def split: option.splits if_splits
        simp del: find.simps)
  with seg show ?thesis
    using set_take_subset [of n seg] set_drop_subset [of k seg]
      set_drop_subset [of "length seg + 1" s] by auto
qed

lemma github_tld_unmatched:
  "\<forall>t\<in>set [''io'', ''com'', ''org''].
     find (\<lambda>tld. suffix (''.github.'' @ tld) (map lowerByte ''github.'' @ t))
       [''io'', ''com'', ''org''] = None"
  by code_simp

subsection \<open>The path of a cleaned text\<close>

lemma ExtractPath_host_only:
  assumes "CHR ''/'' \<notin> set (Clean U raw)"
  shows "ExtractPath U raw = []"
proof -
  have tw: "takeWhile (\<lambda>c. c \<noteq> CHR ''/'') (Clean U raw) = Clean U raw"
    using assms by (simp add: takeWhile_eq_all_conv) blast
  have idx: "Index (Clean U raw) ''/'' = None"
    using assms by (simp add: Index_char_None)
  show ?thesis
  proof (cases "githubioRe (Clean U raw)")
    case None
    then show ?thesis by (simp add: ExtractPath_def Let_def idx)
  next
    case (Some m)
    obtain user tld rest where m: "m = (user, tld, rest)" by (cases m)
    with Some githubioRe_rest [of "Clean U raw" user tld rest] have "rest = []"
      by (simp add: tw)
    with Some m show ?thesis by (simp add: ExtractPath_def Let_def)
  qed
qed

lemma ExtractPath_single_segment:
  assumes "count_list (Clean U raw) (CHR ''/'') = 1" and "githubioRe (Clean U raw) = None"
  shows "CHR ''/'' \<notin> set (ExtractPath U raw)"
proof (cases "Index (Clean U raw) ''/''")
  case None
  with assms(2) show ?thesis by (simp add: ExtractPath_def Let_def)
next
  case (Some i)
  have n: "CHR ''/'' \<notin> set (drop (i + 1) (Clean U raw))"
    using assms(1) Some by (rule count_one_drop)
  then have "\<not> Contains (drop (i + 1) (Clean U raw)) ''//''"
    using Contains_slashes_mem by blast
  then have "collapseSlashes (drop (i + 1) (Clean U raw)) = drop (i + 1) (Clean U raw)"
    by (rule collapseSlashes_id)
  with n Some assms(2) show ?thesis
    by (simp add: ExtractPath_def Let_def)
qed

subsection \<open>The known-host table\<close>

lemma knownHosts_suffix_free:
  "\<forall>x\<in>set knownHosts. \<forall>y\<in>set knownHosts.
      (suffix (''.'' @ fst x) (''.'' @ fst y) \<longrightarrow> fst x = fst y) \<and>
      \<not> suffix (''.'' @ fst x) (fst y)"
  by code_simp

lemma knownHosts_suffix_eq:
  assumes "(d1, c1) \<in> set knownHosts" "(d2, c2) \<in> set knownHosts"
    and "suffix (''.'' @ d1) (''.'' @ d2)"
  shows "d1 = d2"
proof -
  from knownHosts_suffix_free assms(1,2)
  have "suffix (''.'' @ fst (d1, c1)) (''.'' @ fst (d2, c2)) \<longrightarrow> fst (d1, c1) = fst (d2, c2)"
    by blast
  with assms(3) show ?thesis by simp
qed

lemma knownHosts_not_suffix:
  assumes "(d1, c1) \<in> set knownHosts" "(d2, c2) \<in> set knownHosts"
  shows "\<not> suffix (''.'' @ d1) d2"
proof -
  from knownHosts_suffix_free assms(1,2)
  have "\<not> suffix (''.'' @ fst (d1, c1)) (fst (d2, c2))"
    by blast
  then show ?thesis by simp
qed

lemma knownHosts_distinct: "distinct (map fst knownHosts)"
  by (simp add: knownHosts_def)

lemma knownHosts_canonical_nonempty: "(d, c) \<in> set knownHosts \<Longrightarrow> c \<noteq> []"
  by (auto simp: knownHosts_def)

text \<open>No host ends with two of the known domains.\<close>

lemma suffixDomain_unique:
  assumes "(d1, c1) \<in> set knownHosts" "(d2, c2) \<in> set knownHosts"
    and "suffix (''.'' @ d1) h" "suffix (''.'' @ d2) h"
  shows "d1 = d2"
proof -
  from assms(3,4) have "suffix (''.'' @ d1) (''.'' @ d2) \<or> suffix (''.'' @ d2) (''.'' @ d1)"
    by (rule suffix_same_cases)
  then show ?thesis
  proof
    assume "suffix (''.'' @ d1) (''.'' @ d2)"
    with assms(1,2) show ?thesis by (rule knownHosts_suffix_eq)
  next
    assume "suffix (''.'' @ d2) (''.'' @ d1)"
    with assms(2,1) have "d2 = d1" by (rule knownHosts_suffix_eq)
    then show ?thesis ..
  qed
qed

lemma suffixDomain_first:
  assumes "(d, c) \<in> set hosts" and "suffix (''.'' @ d) h" and "distinct (map fst hosts)"
    and "\<And>d' c'. (d', c') \<in> set hosts \<Longrightarrow> suffix (''.'' @ d') h \<Longrightarrow> d' = d"
  shows "suffixDomain h hosts = Some (d, c)"
  using assms
proof (induction hosts)
  case Nil
  then show ?case by simp
next
  case (Cons x hosts)
  obtain d' c' where x: "x = (d', c')" by (cases x)
  show ?case
  proof (cases "suffix (''.'' @ d') h")
    case True
    have "(d', c') \<in> set (x # hosts)" by (simp add: x)
    then have d': "d' = d" using True by (rule Cons.prems(4))
    have "d \<notin> fst ` set hosts"
      using Cons.prems(3) by (simp add: x d')
    then have "(d, c) \<notin> set hosts"
      by (metis fst_conv image_eqI)
    with Cons.prems(1) have "c' = c"
      by (simp add: x)
    with True d' show ?thesis
      by (simp add: x)
  next
    case False
    with Cons.prems(2) have "d' \<noteq> d" by blast
    with Cons.prems(1) have in_hosts: "(d, c) \<in> set hosts"
      by (simp add: x)
    have "suffixDomain h hosts = Some (d, c)"
    proof (rule Cons.IH [OF in_hosts Cons.prems(2)])
      show "distinct (map fst hosts)" using Cons.prems(3) by simp
    next
      fix d'' c''
      assume "(d'', c'') \<in> set hosts" "suffix (''.'' @ d'') h"
      then show "d'' = d" using Cons.prems(4) [of d'' c''] by simp
    qed
    with False show ?thesis
      by (simp add: x)
  qed
qed

lemma suffixDomain_mem: "suffixDomain h hosts = Some x \<Longrightarrow> x \<in> set hosts"
  by (induction hosts) (auto split: if_splits)

lemma suffixDomain_None: "suffixDomain h hosts = None \<longleftrightarrow> (\<forall>(d, c)\<in>set hosts. \<not> suffix (''.'' @ d) h)"
  by (induction hosts) (auto split: if_splits)

text \<open>
  The loop over the known hosts gives the same result in every order in which the map
  can be visited.
\<close>

lemma suffixDomain_order:
  assumes "set hosts = set knownHosts" and "distinct (map fst hosts)"
  shows "suffixDomain h hosts = suffixDomain h knownHosts"
proof (cases "suffixDomain h knownHosts")
  case None
  then have "suffixDomain h hosts = None"
    unfolding suffixDomain_None assms(1) .
  with None show ?thesis by simp
next
  case (Some x)
  obtain d c where x: "x = (d, c)" by (cases x)
  from Some have mem: "(d, c) \<in> set knownHosts"
    unfolding x by (rule suffixDomain_mem)
  have suf: "suffix (''.'' @ d) h"
  proof (rule ccontr)
    assume n: "\<not> suffix (''.'' @ d) h"
    have "suffixDomain h ks = Some (d, c) \<Longrightarrow> suffix (''.'' @ d) h" for ks
      by (induction ks) (auto split: if_splits)
    with Some x n show False by blast
  qed
  have "suffixDomain h hosts = Some (d, c)"
  proof (rule suffixDomain_first)
    show "(d, c) \<in> set hosts" using mem assms(1) by simp
    show "suffix (''.'' @ d) h" by (rule suf)
    show "distinct (map fst hosts)" by (rule assms(2))
  next
    fix d' c'
    assume "(d', c') \<in> set hosts" "suffix (''.'' @ d') h"
    with assms(1) mem suf show "d' = d"
      using suffixDomain_unique by blast
  qed
  with Some x show ?thesis by simp
qed

lemma TrimSuffix_append: "TrimSuffix (a @ b) b = a"
  by (simp add: TrimSuffix_def suffix_def)

lemma canonicalizeHost_subdomain:
  assumes "(domain, c) \<in> set knownHosts" and "ToLower U host = sub @ ''.'' @ domain"
  shows "canonicalizeHost U host =
           (if sub \<in> set knownSubdomains then (c, domain) else (c, ToLower U host))"
proof -
  have suf: "suffix (''.'' @ domain) (ToLower U host)"
    unfolding assms(2) by (simp add: suffix_def)
  have "map_of knownHosts (ToLower U host) = None"
  proof (cases "map_of knownHosts (ToLower U host)")
    case (Some c')
    then have "(ToLower U host, c') \<in> set knownHosts"
      by (rule map_of_SomeD)
    with assms(1) suf show ?thesis
      using knownHosts_not_suffix by blast
  qed simp
  moreover have "suffixDomain (ToLower U host) knownHosts = Some (domain, c)"
    using assms(1) suf knownHosts_distinct
  proof (rule suffixDomain_first)
    fix d' c'
    assume "(d', c') \<in> set knownHosts" "suffix (''.'' @ d') (ToLower U host)"
    with assms(1) suf show "d' = domain"
      using suffixDomain_unique by blast
  qed
  moreover have "TrimSuffix (ToLower U host) (''.'' @ domain) = sub"
    unfolding assms(2) using TrimSuffix_append [of sub "''.'' @ domain"] by simp
  ultimately show ?thesis
    by (simp add: canonicalizeHost_def Let_def)
qed

lemma canonicalizeHost_cases:
  "(\<exists>d c nh. (d, c) \<in> set knownHosts \<and> canonicalizeHost U h = (c, nh)) \<or>
   (canonicalizeHost U h = ([], h) \<and> suffixDomain (ToLower U h) knownHosts = None)"
proof (cases "map_of knownHosts (ToLower U h)")
  case (Some c)
  then have "(ToLower U h, c) \<in> set knownHosts"
    by (rule map_of_SomeD)
  with Some show ?thesis
    by (auto simp: canonicalizeHost_def Let_def)
next
  case None
  show ?thesis
  proof (cases "suffixDomain (ToLower U h) knownHosts")
    case None': None
    with None show ?thesis
      by (simp add: canonicalizeHost_def Let_def)
  next
    case (Some x)
    obtain d c where x: "x = (d, c)" by (cases x)
    from Some have "(d, c) \<in> set knownHosts"
      unfolding x by (rule suffixDomain_mem)
    with None Some x show ?thesis
      by (auto simp: canonicalizeHost_def Let_def)
  qed
qed

lemma subdomainPrefixes_domain:
  assumes "map_of subdomainPrefixes k = Some domain"
  shows "domain \<in> fst ` set knownHosts"
proof -
  from assms have "(k, domain) \<in> set subdomainPrefixes"
    by (rule map_of_SomeD)
  then show ?thesis
    by (auto simp: subdomainPrefixes_def intro: rev_image_eqI)
qed

lemma subdomainPrefixes_key:
  assumes "map_of subdomainPrefixes k = Some domain"
  shows "\<exists>(d, c)\<in>set knownHosts. suffix (''.'' @ d) k"
proof -
  from assms have "(k, domain) \<in> set subdomainPrefixes"
    by (rule map_of_SomeD)
  then obtain d c sub where "(d, c) \<in> set knownHosts" "k = sub @ ''.'' @ d"
    by (auto simp: subdomainPrefixes_def)
  then show ?thesis
    by (auto simp: suffix_def)
qed

lemma subdomainPrefixes_unknown:
  assumes "suffixDomain k knownHosts = None"
  shows "map_of subdomainPrefixes k = None"
proof (cases "map_of subdomainPrefixes k")
  case (Some domain)
  then have "\<exists>(d, c)\<in>set knownHosts. suffix (''.'' @ d) k"
    by (rule subdomainPrefixes_key)
  with assms show ?thesis
    by (simp add: suffixDomain_None) blast
qed simp

lemma knownHosts_tidy: "\<forall>x\<in>set knownHosts. tidy (fst x)"
  by code_simp

lemma knownHosts_canonical_facts:
  "\<forall>x\<in>set knownHosts.
      snd x = ''https://'' @ drop 8 (snd x) \<and>
      drop 8 (snd x) \<noteq> [] \<and>
      CHR ''/'' \<notin> set (drop 8 (snd x)) \<and>
      isASCII (drop 8 (snd x)) \<and>
      map lowerByte (drop 8 (snd x)) = drop 8 (snd x) \<and>
      map_of knownHosts (drop 8 (snd x)) = Some (snd x) \<and>
      map_of subdomainPrefixes (drop 8 (snd x)) = None \<and>
      tidy (drop 8 (snd x)) \<and>
      find (\<lambda>tld. suffix (''.github.'' @ tld) (map lowerByte (drop 8 (snd x))))
        [''io'', ''com'', ''org''] = None"
  by code_simp

lemma Parse_baseURL:
  "Parse U rawURL =
     (if ExtractOwnerRepo U rawURL = [] \<or> ExtractHost U rawURL = [] then []
      else baseURL U (ExtractHost U rawURL) @ ''/'' @ ExtractOwnerRepo U rawURL)"
  by (simp add: Parse_def baseURL_def Let_def split: prod.splits)

lemma String_baseURL:
  "String U (Some r) = baseURL U (Host r) @ ''/'' @ Owner r @ ''/'' @ Repo r"
  by (simp add: String_def baseURL_def split: prod.splits)

text \<open>The base URL of a host is the base URL of the host it names.\<close>

lemma baseURL_known:
  assumes "(d, c) \<in> set knownHosts"
  shows "baseURL U (drop 8 c) = c"
proof -
  from knownHosts_canonical_facts assms
  have f: "isASCII (drop 8 c)" "map lowerByte (drop 8 c) = drop 8 c"
    "map_of knownHosts (drop 8 c) = Some c"
    by (force simp del: find.simps)+
  have "c \<noteq> []"
    using assms by (rule knownHosts_canonical_nonempty)
  with f show ?thesis
    by (simp add: baseURL_def canonicalizeHost_def ToLower_def Let_def)
qed

lemma baseURL_shape:
  assumes "h \<noteq> []" and "CHR ''/'' \<notin> set h"
    and "\<And>rest. githubioRe (h @ CHR ''/'' # rest) = None" and "tidy h"
  shows "\<exists>H. baseURL U h = ''https://'' @ H \<and> H \<noteq> [] \<and> CHR ''/'' \<notin> set H \<and>
           (\<forall>rest. githubioRe (H @ CHR ''/'' # rest) = None) \<and>
           baseURL U H = ''https://'' @ H \<and>
           map_of subdomainPrefixes (ToLower U H) = None \<and> tidy H"
proof -
  consider (known) d c nh where "(d, c) \<in> set knownHosts" "canonicalizeHost U h = (c, nh)"
    | (unknown) "canonicalizeHost U h = ([], h)" "suffixDomain (ToLower U h) knownHosts = None"
    using canonicalizeHost_cases [of U h] by (elim disjE exE conjE) blast+
  then show ?thesis
  proof cases
    case known
    from knownHosts_canonical_facts known(1)
    have "snd (d, c) = ''https://'' @ drop 8 (snd (d, c)) \<and>
      drop 8 (snd (d, c)) \<noteq> [] \<and>
      CHR ''/'' \<notin> set (drop 8 (snd (d, c))) \<and>
      isASCII (drop 8 (snd (d, c))) \<and>
      map lowerByte (drop 8 (snd (d, c))) = drop 8 (snd (d, c)) \<and>
      map_of knownHosts (drop 8 (snd (d, c))) = Some (snd (d, c)) \<and>
      map_of subdomainPrefixes (drop 8 (snd (d, c))) = None \<and>
      tidy (drop 8 (snd (d, c))) \<and>
      find (\<lambda>tld. suffix (''.github.'' @ tld) (map lowerByte (drop 8 (snd (d, c)))))
        [''io'', ''com'', ''org''] = None"
      by (rule bspec)
    then have f: "c = ''https://'' @ drop 8 c" "drop 8 c \<noteq> []" "CHR ''/'' \<notin> set (drop 8 c)"
      "find (\<lambda>tld. suffix (''.github.'' @ tld) (map lowerByte (drop 8 c)))
        [''io'', ''com'', ''org''] = None"
      "isASCII (drop 8 c)" "map lowerByte (drop 8 c) = drop 8 c"
      "map_of subdomainPrefixes (drop 8 c) = None" "tidy (drop 8 c)"
      unfolding snd_conv by blast+
    have "c \<noteq> []"
      using known(1) by (rule knownHosts_canonical_nonempty)
    with known(2) have b: "baseURL U h = c"
      by (simp add: baseURL_def)
    have "baseURL U (drop 8 c) = c"
      using known(1) by (rule baseURL_known)
    moreover have "githubioRe (drop 8 c @ CHR ''/'' # rest) = None" for rest
      using f(4,3) by (rule githubioRe_None_find)
    moreover have "ToLower U (drop 8 c) = drop 8 c"
      using f(5,6) by (simp add: ToLower_ASCII)
    ultimately have "baseURL U h = ''https://'' @ drop 8 c \<and> drop 8 c \<noteq> [] \<and>
        CHR ''/'' \<notin> set (drop 8 c) \<and>
        (\<forall>rest. githubioRe (drop 8 c @ CHR ''/'' # rest) = None) \<and>
        baseURL U (drop 8 c) = ''https://'' @ drop 8 c \<and>
        map_of subdomainPrefixes (ToLower U (drop 8 c)) = None \<and> tidy (drop 8 c)"
      using f(1,2,3,7,8) b by metis
    then show ?thesis ..
  next
    case unknown
    from unknown(1) have "baseURL U h = ''https://'' @ h"
      by (simp add: baseURL_def)
    moreover have "map_of subdomainPrefixes (ToLower U h) = None"
      using unknown(2) by (rule subdomainPrefixes_unknown)
    ultimately show ?thesis
      using assms by (intro exI [of _ h]) simp
  qed
qed

subsection \<open>ParseFromMap\<close>

lemma priorityScan_None:
  assumes "\<forall>key\<in>set keys. \<forall>val. map_of m key = Some val \<longrightarrow> Parse U val = []"
  shows "priorityScan U m keys = None"
  using assms by (induction keys) (auto split: option.splits)

lemma fallbackScan_source:
  assumes "fallbackScan U m \<noteq> []"
  shows "\<exists>(key, val)\<in>set m. \<not> Contains val ''/sponsors'' \<and> Parse U val = fallbackScan U m"
  using assms by (induction m) (auto split: if_splits)

lemma fallbackScan_only_sponsors:
  assumes "\<forall>(key, val)\<in>set m. Parse U val \<noteq> [] \<longrightarrow> Contains val ''/sponsors''"
  shows "fallbackScan U m = []"
  using assms by (induction m) auto

subsection \<open>What the steps of Clean keep\<close>

lemma tidy_subset: "set t \<subseteq> set s \<Longrightarrow> tidy s \<Longrightarrow> tidy t"
  by (auto simp: tidy_def)

lemma tidy_append: "tidy (a @ b) = (tidy a \<and> tidy b)"
  by (auto simp: tidy_def)

lemma tidy_Cons:
  "tidy (c # s) = (c \<notin> set noiseChars \<and> c \<noteq> CHR ''#'' \<and> c \<noteq> CHR ''?'' \<and> tidy s)"
  by (simp add: tidy_def)

lemma tidy_literal: "tidy (''github.'' @ s) = tidy s" "tidy (CHR ''/'' # s) = tidy s"
  by (simp_all add: tidy_Cons noiseChars_def)

lemma set_removeAuth: "set (removeAuth s) \<subseteq> set s"
proof -
  have "set (take n s @ drop k (drop n s)) \<subseteq> set s" for n k
    using set_take_subset [of n s] set_drop_subset [of "k + n" s] by auto
  then show ?thesis
    by (auto simp: removeAuth_def Let_def split: option.splits simp del: drop_drop)
qed

lemma set_TrimPrefix: "set (TrimPrefix s p) \<subseteq> set s"
  by (simp add: TrimPrefix_def set_drop_subset)

lemma set_TrimSuffix: "set (TrimSuffix s p) \<subseteq> set s"
  by (simp add: TrimSuffix_def set_take_subset)

lemma set_trimGitSuffix: "set (trimGitSuffix U s) \<subseteq> set s"
  by (simp add: trimGitSuffix_def set_take_subset)

lemma removeSchemes_drop: "\<exists>n. removeSchemes U s = drop n s"
proof (induction U s rule: removeSchemes.induct)
  case (1 U prev)
  show ?case
  proof (cases "removeSchemesPass U prev = prev")
    case True
    then have "removeSchemes U prev = drop 0 prev"
      by (simp add: removeSchemes.simps [of U prev])
    then show ?thesis ..
  next
    case False
    obtain n where n: "removeSchemesPass U prev = drop n prev"
      using removeSchemesPass_drop by blast
    from "1.IH" [OF refl False] obtain k
      where "removeSchemes U (removeSchemesPass U prev) = drop k (removeSchemesPass U prev)"
      by blast
    with False have "removeSchemes U prev = drop (k + n) prev"
      by (simp add: removeSchemes.simps [of U prev] n)
    then show ?thesis ..
  qed
qed

lemma set_removeSchemes: "set (removeSchemes U s) \<subseteq> set s"
proof -
  obtain n where "removeSchemes U s = drop n s"
    using removeSchemes_drop by blast
  then show ?thesis
    by (simp add: set_drop_subset)
qed

lemma tidy_stripKnownSubdomains:
  assumes "tidy s"
  shows "tidy (stripKnownSubdomains U s)"
proof (cases "map_of subdomainPrefixes (ToLower U (take (hostEnd s) s))")
  case None
  with assms show ?thesis
    by (simp add: stripKnownSubdomains_def)
next
  case (Some domain)
  then have "domain \<in> fst ` set knownHosts"
    by (rule subdomainPrefixes_domain)
  then have "tidy domain"
    using knownHosts_tidy by auto
  moreover have "tidy (drop (hostEnd s) s)"
    using set_drop_subset assms by (rule tidy_subset)
  ultimately show ?thesis
    using Some assms by (simp add: stripKnownSubdomains_def tidy_append)
qed

lemma tidy_normalizeColonSeparator:
  assumes "tidy s"
  shows "tidy (normalizeColonSeparator s)"
proof -
  have "tidy (take n s)" "tidy (drop n s)" for n
    using assms set_take_subset [of n s] set_drop_subset [of n s]
    by (auto simp: tidy_def)
  moreover have "tidy (CHR ''/'' # t) = tidy t" for t
    by (simp add: tidy_def noiseChars_def)
  moreover have "tidy []"
    by (simp add: tidy_def)
  ultimately show ?thesis
    using assms
    by (auto simp: normalizeColonSeparator_def Let_def tidy_append split: option.splits)
qed

lemma tidy_prepared: "tidy (cutAt (cutAt (removeChars s noiseChars) ''#'') ''?'')"
proof -
  have "c \<in> set (takeWhile (\<lambda>x. x \<noteq> CHR ''?'') (takeWhile (\<lambda>x. x \<noteq> CHR ''#'') (removeChars s noiseChars)))
      \<Longrightarrow> c \<notin> set noiseChars \<and> c \<noteq> CHR ''#'' \<and> c \<noteq> CHR ''?''" for c
    by (auto dest!: set_takeWhileD simp: removeChars_def)
  then show ?thesis
    unfolding tidy_def cutAt_char by blast
qed

lemma Clean_Nil: "Clean U [] = []"
proof -
  have "spaceWidth [] = 0" "spaceWidthEnd [] = 0"
    by (simp_all add: spaceWidth_def spaceWidthEnd_def)
  then have "TrimSpace [] = []"
    by (simp add: TrimSpace_def TrimLeftSpace.simps [of "[]"] TrimRightSpace.simps [of "[]"])
  then show ?thesis
    by (simp add: Clean_def)
qed

lemma Clean_tidy: "tidy (Clean U text)"
proof (cases "TrimSpace text = []")
  case True
  then show ?thesis
    by (simp add: Clean_def tidy_def)
next
  case False
  define s0 where "s0 = cutAt (cutAt (removeChars (TrimSpace text) noiseChars) ''#'') ''?''"
  have "tidy s0"
    unfolding s0_def by (rule tidy_prepared)
  then have "tidy (TrimPrefix (removeAuth s0) ''='')"
    using set_removeAuth set_TrimPrefix by (blast intro: tidy_subset)
  then have "tidy (removeSchemes U (TrimPrefix (removeAuth s0) ''=''))"
    using set_removeSchemes by (blast intro: tidy_subset)
  then have "tidy (stripKnownSubdomains U (removeSchemes U (TrimPrefix (removeAuth s0) ''='')))"
    by (rule tidy_stripKnownSubdomains)
  then have "tidy (TrimSuffix (trimGitSuffix U (stripKnownSubdomains U
      (removeSchemes U (TrimPrefix (removeAuth s0) ''='')))) ''/'')"
    using set_trimGitSuffix set_TrimSuffix by (blast intro: tidy_subset)
  then have "tidy (normalizeColonSeparator (TrimSuffix (trimGitSuffix U (stripKnownSubdomains U
      (removeSchemes U (TrimPrefix (removeAuth s0) ''='')))) ''/''))"
    by (rule tidy_normalizeColonSeparator)
  then have "tidy (collapseSlashes (normalizeColonSeparator (TrimSuffix (trimGitSuffix U
      (stripKnownSubdomains U (removeSchemes U (TrimPrefix (removeAuth s0) ''='')))) ''/'')))"
    using set_collapseSlashes by (blast intro: tidy_subset)
  with False show ?thesis
    by (simp add: Clean_def Let_def s0_def)
qed

lemma Clean_no_double_slash: "\<not> Contains (Clean U text) ''//''"
proof (cases "TrimSpace text = []")
  case True
  then show ?thesis
    by (simp add: Clean_def Contains_def)
next
  case False
  then show ?thesis
    by (simp add: Clean_def Let_def collapseSlashes_no_double)
qed

lemma tidy_fixed:
  assumes "tidy c"
  shows "cutAt (cutAt (removeChars c noiseChars) ''#'') ''?'' = c"
proof -
  from assms have "removeChars c noiseChars = c"
    by (auto simp: removeChars_def tidy_def)
  moreover from assms have "takeWhile (\<lambda>x. x \<noteq> CHR ''#'') c = c" "takeWhile (\<lambda>x. x \<noteq> CHR ''?'') c = c"
    by (auto simp: tidy_def)
  ultimately show ?thesis
    by (simp add: cutAt_char del: takeWhile_eq_all_conv)
qed

subsection \<open>Texts that a step of Clean leaves as they are\<close>

lemma removeAuth_no_at: "CHR ''@'' \<notin> set s \<Longrightarrow> removeAuth s = s"
proof -
  assume a: "CHR ''@'' \<notin> set s"
  have "CHR ''@'' \<notin> set (drop n s)" for n
    using a set_drop_subset [of n s] by auto
  then have "LastIndex (drop n s) ''@'' = None" for n
    by (rule LastIndex_char_None)
  then show ?thesis
    by (simp add: removeAuth_def Let_def)
qed

lemma schemes_colon: "\<forall>scheme\<in>set schemes. CHR '':'' \<in> set scheme"
  by (simp add: schemes_def)

lemma removeSchemesPass_plain:
  assumes "isASCII s" and "CHR '':'' \<notin> set s" and "\<not> Contains s ''//''"
    and "s \<noteq> []" and "hd s \<noteq> CHR ''/''"
  shows "removeSchemesPass U s = s"
proof -
  have low: "ToLower U s = map lowerByte s"
    using assms(1) by (rule ToLower_ASCII)
  have nc: "CHR '':'' \<notin> set (map lowerByte s)"
    using assms(2) unfolding colon_lower .
  have np: "\<not> prefix p (map lowerByte s)" if "CHR '':'' \<in> set p" for p
  proof
    assume "prefix p (map lowerByte s)"
    then have "set p \<subseteq> set (map lowerByte s)"
      by (rule set_mono_prefix)
    with that nc show False by blast
  qed
  have "find (\<lambda>scheme. prefix scheme (map lowerByte s)) schemes = None"
    using schemes_colon np by (simp add: find_None_iff)
  then have rs: "removeScheme U s = s"
    by (simp add: removeScheme_def low)
  have g: "\<not> prefix ''git//'' (map lowerByte s)"
    using assms(3) git_slashes_prefix by blast
  have t: "TrimLeftSlash s = s"
    using assms(4,5) by (cases s) (simp_all add: TrimLeftSlash_def)
  have "\<not> prefix ''scm:git:'' (map lowerByte s)" "\<not> prefix ''scm:svn:'' (map lowerByte s)"
    "\<not> prefix ''scm:hg:'' (map lowerByte s)"
    by (rule np, simp)+
  with rs g t show ?thesis
    by (simp add: removeSchemesPass_def Let_def low)
qed

lemma removeSchemes_plain:
  assumes "isASCII s" and "CHR '':'' \<notin> set s" and "\<not> Contains s ''//''"
    and "s \<noteq> []" and "hd s \<noteq> CHR ''/''"
  shows "removeSchemes U s = s"
proof -
  have "removeSchemesPass U s = s"
    using assms by (rule removeSchemesPass_plain)
  then show ?thesis
    by (simp add: removeSchemes.simps [of U s] Let_def)
qed

lemma removeSchemes_https:
  assumes "isASCII rest" and "CHR '':'' \<notin> set rest" and "\<not> Contains rest ''//''"
    and "rest \<noteq> []" and "hd rest \<noteq> CHR ''/''"
  shows "removeSchemes U (''https://'' @ rest) = rest"
proof -
  define u where "u = ''https://'' @ rest"
  have pr: "removeSchemesPass U rest = rest"
    using assms by (rule removeSchemesPass_plain)
  have a: "isASCII u"
    using assms(1) by (simp add: isASCII_code u_def)
  have "map lowerByte ''https://'' = ''https://''"
    by code_simp
  then have low: "ToLower U u = ''https://'' @ map lowerByte rest"
    using a by (simp add: ToLower_ASCII u_def)
  have f: "find (\<lambda>scheme. prefix scheme (ToLower U u)) schemes = Some ''https://''"
    by (simp add: low schemes_def)
  have rs: "removeScheme U u = rest"
    unfolding removeScheme_def Let_def f by (simp add: u_def)
  have g: "\<not> prefix ''git//'' (ToLower U rest)"
    using assms(1,3) git_slashes_prefix by (auto simp: ToLower_ASCII)
  have t: "TrimLeftSlash rest = rest"
    using assms(4,5) by (cases rest) (simp_all add: TrimLeftSlash_def)
  have s1: "(if prefix ''scm:git:'' (ToLower U u) then drop 8 u
        else if prefix ''scm:svn:'' (ToLower U u) then drop 8 u
        else if prefix ''scm:hg:'' (ToLower U u) then drop 7 u
        else u) = u"
    by (simp add: low)
  have p1: "removeSchemesPass U u = rest"
    unfolding removeSchemesPass_def Let_def s1 rs using g t by simp
  have "rest \<noteq> u"
    by (simp add: u_def)
  with p1 pr have "removeSchemes U u = rest"
    by (simp add: removeSchemes.simps [of U u] removeSchemes.simps [of U rest] Let_def)
  then show ?thesis
    unfolding u_def .
qed

lemma trimGitSuffix_plain:
  assumes "isASCII s" and "s \<noteq> []" and "last s \<noteq> CHR ''/''"
    and "\<not> suffix ''.git'' (map lowerByte s)"
  shows "trimGitSuffix U s = s"
proof -
  have low: "ToLower U (drop n s) = drop n (map lowerByte s)" for n
    using assms(1) by (simp add: ToLower_ASCII isASCII_drop drop_map)
  have "drop (length s - 4) (map lowerByte s) \<noteq> ''.git''"
  proof
    assume "drop (length s - 4) (map lowerByte s) = ''.git''"
    then have "suffix ''.git'' (map lowerByte s)"
      by (metis suffix_drop)
    with assms(4) show False ..
  qed
  moreover have "drop (length s - 5) (map lowerByte s) \<noteq> ''.git/''"
  proof
    assume e: "drop (length s - 5) (map lowerByte s) = ''.git/''"
    then have "suffix ''.git/'' (map lowerByte s)"
      by (metis suffix_drop)
    then have "last (map lowerByte s) = CHR ''/''"
      by (auto simp: suffix_def)
    then have "lowerByte (last s) = CHR ''/''"
      using assms(2) by (simp add: last_map)
    with assms(3) show False by (simp add: lowerByte_slash)
  qed
  ultimately show ?thesis
    by (simp add: trimGitSuffix_def low)
qed

lemma TrimSuffix_plain: "s \<noteq> [] \<Longrightarrow> last s \<noteq> CHR ''/'' \<Longrightarrow> TrimSuffix s ''/'' = s"
  by (auto simp: TrimSuffix_def suffix_def)

lemma normalizeColonSeparator_plain:
  assumes "CHR '':'' \<notin> set s"
  shows "normalizeColonSeparator s = s"
proof -
  from assms have "Index s '':'' = None"
    by (simp add: Index_char_None)
  then show ?thesis
    by (simp add: normalizeColonSeparator_def)
qed

lemma stripKnownSubdomains_plain:
  assumes "isASCII s" and "CHR '':'' \<notin> set s"
    and "map_of subdomainPrefixes (map lowerByte (takeWhile (\<lambda>x. x \<noteq> CHR ''/'') s)) = None"
  shows "stripKnownSubdomains U s = s"
proof -
  have c: "Index s '':'' = None"
    using assms(2) by (simp add: Index_char_None)
  have "take (hostEnd s) s = takeWhile (\<lambda>x. x \<noteq> CHR ''/'') s"
  proof (cases "Index s ''/''")
    case None
    then have "CHR ''/'' \<notin> set s"
      by (simp add: Index_char_None)
    then have tw: "takeWhile (\<lambda>x. x \<noteq> CHR ''/'') s = s"
      by auto
    have "hostEnd s = length s"
      using None c by (simp add: hostEnd_def)
    then show ?thesis
      unfolding tw by simp
  next
    case (Some i)
    then have "take i s = takeWhile (\<lambda>x. x \<noteq> CHR ''/'') s"
      by (rule Index_char_take)
    with Some c show ?thesis
      by (cases "i < length s") (simp_all add: hostEnd_def)
  qed
  moreover have "isASCII (take (hostEnd s) s)"
    using assms(1) by (rule isASCII_take)
  ultimately have "ToLower U (take (hostEnd s) s) =
      map lowerByte (takeWhile (\<lambda>x. x \<noteq> CHR ''/'') s)"
    by (simp add: ToLower_ASCII)
  with assms(3) show ?thesis
    by (simp add: stripKnownSubdomains_def)
qed

text \<open>
  A text that is a fixed point of \<open>Clean\<close>: ASCII bytes only, none of the bytes that
  \<open>Clean\<close> removes or rewrites, nothing to trim at either end, and a host that is not a
  subdomain to strip.
\<close>

lemma Clean_fixed_plain:
  assumes "tidy c" and "\<not> Contains c ''//''" and "isASCII c" and "c \<noteq> []"
    and "CHR ''@'' \<notin> set c" and "CHR '':'' \<notin> set c"
    and "hd c \<noteq> CHR ''='' " and "hd c \<noteq> CHR ''/''" and "last c \<noteq> CHR ''/''"
    and "\<not> asciiSpace (hd c)" and "\<not> asciiSpace (last c)"
    and "\<not> suffix ''.git'' (map lowerByte c)"
    and "stripKnownSubdomains U c = c"
  shows "Clean U c = c"
proof -
  have 1: "TrimSpace c = c"
    using assms(3,4,10,11) by (rule TrimSpace_ASCII)
  have 2: "cutAt (cutAt (removeChars c noiseChars) ''#'') ''?'' = c"
    using assms(1) by (rule tidy_fixed)
  have 3: "removeAuth c = c"
    using assms(5) by (rule removeAuth_no_at)
  have 4: "TrimPrefix c ''='' = c"
    using assms(4,7) by (cases c) (simp_all add: TrimPrefix_def)
  have 5: "removeSchemes U c = c"
    using assms(3,6,2,4,8) by (rule removeSchemes_plain)
  have 7: "trimGitSuffix U c = c"
    using assms(3,4,9,12) by (rule trimGitSuffix_plain)
  have 8: "TrimSuffix c ''/'' = c"
    using assms(4,9) by (rule TrimSuffix_plain)
  have 9: "normalizeColonSeparator c = c"
    using assms(6) by (rule normalizeColonSeparator_plain)
  have 10: "collapseSlashes c = c"
    using assms(2) by (rule collapseSlashes_id)
  from assms(4) show ?thesis
    by (simp add: Clean_def Let_def 1 2 3 4 5 assms(13) 7 8 9 10)
qed

subsection \<open>The shape of a result of Parse\<close>

lemma ExtractHost_unmatched: "githubioRe (ExtractHost U raw @ CHR ''/'' # rest) = None"
proof (cases "Clean U raw = []")
  case True
  then show ?thesis
    by (simp add: ExtractHost_def githubioRe_def)
next
  case False
  show ?thesis
  proof (cases "githubioRe (Clean U raw)")
    case None
    have h: "ExtractHost U raw = takeWhile (\<lambda>c. c \<noteq> CHR ''/'') (Clean U raw)"
      using False None cut_char [of "Clean U raw" "CHR ''/''"]
      by (simp add: ExtractHost_def Let_def)
    have "CHR ''/'' \<notin> set (ExtractHost U raw)"
      unfolding h by (auto dest: set_takeWhileD)
    then have "takeWhile (\<lambda>c. c \<noteq> CHR ''/'') (ExtractHost U raw @ CHR ''/'' # rest) =
        takeWhile (\<lambda>c. c \<noteq> CHR ''/'') (Clean U raw)"
      by (simp add: takeWhile_seg h [symmetric])
    with None show ?thesis
      by (rule githubioRe_None_seg)
  next
    case (Some m)
    obtain user tld rest0 where m: "m = (user, tld, rest0)" by (cases m)
    from Some m obtain t where t: "t \<in> set [''io'', ''com'', ''org'']" "map lowerByte tld = t"
      using githubioRe_Some by blast
    have h: "ExtractHost U raw = ''github.'' @ tld"
      using False Some m by (simp add: ExtractHost_def Let_def)
    have "CHR ''/'' \<notin> set tld"
    proof
      assume "CHR ''/'' \<in> set tld"
      then have "lowerByte (CHR ''/'') \<in> set (map lowerByte tld)"
        by (metis image_eqI set_map)
      moreover have "lowerByte (CHR ''/'') = CHR ''/''"
        by code_simp
      ultimately show False
        using t by auto
    qed
    then have ns: "CHR ''/'' \<notin> set (''github.'' @ tld)"
      by simp
    have "map lowerByte (''github.'' @ tld) = map lowerByte ''github.'' @ t"
      using t(2) by simp
    with github_tld_unmatched t(1)
    have "find (\<lambda>tld'. suffix (''.github.'' @ tld') (map lowerByte (''github.'' @ tld)))
       [''io'', ''com'', ''org''] = None"
      by (simp del: find.simps set_simps map_append)
    then show ?thesis
      unfolding h using ns by (rule githubioRe_None_find)
  qed
qed

lemma ExtractHost_no_slash: "CHR ''/'' \<notin> set (ExtractHost U raw)"
proof (cases "Clean U raw = []")
  case True
  then show ?thesis
    by (simp add: ExtractHost_def)
next
  case False
  show ?thesis
  proof (cases "githubioRe (Clean U raw)")
    case None
    have "ExtractHost U raw = takeWhile (\<lambda>c. c \<noteq> CHR ''/'') (Clean U raw)"
      using False None cut_char [of "Clean U raw" "CHR ''/''"]
      by (simp add: ExtractHost_def Let_def)
    then show ?thesis
      by (auto dest: set_takeWhileD)
  next
    case (Some m)
    obtain user tld rest0 where m: "m = (user, tld, rest0)" by (cases m)
    from Some m have "tld = drop (length (takeWhile (\<lambda>c. c \<noteq> CHR ''/'') (Clean U raw)) -
        length (the (find (\<lambda>tld. suffix (''.github.'' @ tld)
          (map lowerByte (takeWhile (\<lambda>c. c \<noteq> CHR ''/'') (Clean U raw)))) [''io'', ''com'', ''org''])))
        (takeWhile (\<lambda>c. c \<noteq> CHR ''/'') (Clean U raw))"
      by (auto simp: githubioRe_def Let_def split: option.splits if_splits simp del: find.simps)
    then have "set tld \<subseteq> set (takeWhile (\<lambda>c. c \<noteq> CHR ''/'') (Clean U raw))"
      by (metis set_drop_subset)
    then have "CHR ''/'' \<notin> set tld"
      by (auto dest: set_takeWhileD)
    with False Some m show ?thesis
      by (simp add: ExtractHost_def Let_def)
  qed
qed

lemma ExtractHost_tidy: "tidy (ExtractHost U raw)"
proof (cases "Clean U raw = []")
  case True
  then show ?thesis
    by (simp add: ExtractHost_def tidy_def)
next
  case False
  note c = Clean_tidy [of U raw]
  show ?thesis
  proof (cases "githubioRe (Clean U raw)")
    case None
    have "ExtractHost U raw = takeWhile (\<lambda>c. c \<noteq> CHR ''/'') (Clean U raw)"
      using False None cut_char [of "Clean U raw" "CHR ''/''"]
      by (simp add: ExtractHost_def Let_def)
    moreover have "set (takeWhile (\<lambda>c. c \<noteq> CHR ''/'') (Clean U raw)) \<subseteq> set (Clean U raw)"
      by (auto dest: set_takeWhileD)
    ultimately show ?thesis
      using c by (auto intro: tidy_subset)
  next
    case (Some m)
    obtain user tld rest0 where m: "m = (user, tld, rest0)" by (cases m)
    from Some m have "set tld \<subseteq> set (Clean U raw)"
      using githubioRe_parts by blast
    with c have "tidy tld"
      by (rule tidy_subset [rotated])
    with False Some m show ?thesis
      by (simp add: ExtractHost_def Let_def tidy_Cons noiseChars_def)
  qed
qed

lemma ExtractPath_tidy: "tidy (ExtractPath U raw)"
proof (cases "Clean U raw = []")
  case True
  then show ?thesis
    by (simp add: ExtractPath_def tidy_def)
next
  case False
  note c = Clean_tidy [of U raw]
  show ?thesis
  proof (cases "githubioRe (Clean U raw)")
    case None
    have "tidy (collapseSlashes (drop n (Clean U raw)))" for n
      using set_collapseSlashes [of "drop n (Clean U raw)"] set_drop_subset [of n "Clean U raw"] c
      by (blast intro: tidy_subset)
    moreover have "tidy []"
      by (simp add: tidy_def)
    ultimately show ?thesis
      using False None by (simp add: ExtractPath_def Let_def split: option.splits)
  next
    case (Some m)
    obtain user tld rest0 where m: "m = (user, tld, rest0)" by (cases m)
    from Some m have "set user \<subseteq> set (Clean U raw)" "set rest0 \<subseteq> set (Clean U raw)"
      using githubioRe_parts by blast+
    with c have "tidy user" "tidy rest0"
      by (auto intro: tidy_subset)
    moreover have "tidy []"
      by (simp add: tidy_def)
    ultimately show ?thesis
      using False Some m by (simp add: ExtractPath_def Let_def tidy_append tidy_literal)
  qed
qed

lemma ExtractOwnerRepo_tidy: "tidy (ExtractOwnerRepo U raw)"
  unfolding ExtractOwnerRepo_def
  using set_ownerRepoOf ExtractPath_tidy by (rule tidy_subset)

text \<open>
  A non-empty result of \<open>Parse\<close> is \<open>https://\<close>, a host, and an owner and a repository,
  with slashes between them and nowhere else.
\<close>

lemma Parse_shape:
  assumes "Parse U text = u" and "u \<noteq> []"
  shows "\<exists>H ow r. u = ''https://'' @ H @ ''/'' @ ow @ ''/'' @ r \<and>
           H \<noteq> [] \<and> CHR ''/'' \<notin> set H \<and> ow \<noteq> [] \<and> CHR ''/'' \<notin> set ow \<and>
           r \<noteq> [] \<and> CHR ''/'' \<notin> set r \<and>
           (\<forall>rest. githubioRe (H @ CHR ''/'' # rest) = None) \<and>
           baseURL U H = ''https://'' @ H \<and>
           map_of subdomainPrefixes (ToLower U H) = None \<and>
           tidy H \<and> tidy ow \<and> tidy r"
proof -
  define h where "h = ExtractHost U text"
  from assms have ne: "ExtractOwnerRepo U text \<noteq> []" "h \<noteq> []"
    and u: "u = baseURL U h @ ''/'' @ ExtractOwnerRepo U text"
    by (auto simp: Parse_baseURL h_def split: if_splits)
  from ne(1) obtain ow r where
    owr: "ExtractOwnerRepo U text = ow @ ''/'' @ r"
    and ow: "ow \<noteq> []" "CHR ''/'' \<notin> set ow" and r: "r \<noteq> []" "CHR ''/'' \<notin> set r"
    unfolding ExtractOwnerRepo_def using ownerRepoOf_shape by blast
  have "tidy (ow @ ''/'' @ r)"
    using ExtractOwnerRepo_tidy [of U "text"] by (simp add: owr)
  then have t: "tidy ow" "tidy r"
    by (simp_all add: tidy_append tidy_literal)
  have "\<exists>H. baseURL U h = ''https://'' @ H \<and> H \<noteq> [] \<and> CHR ''/'' \<notin> set H \<and>
           (\<forall>rest. githubioRe (H @ CHR ''/'' # rest) = None) \<and>
           baseURL U H = ''https://'' @ H \<and>
           map_of subdomainPrefixes (ToLower U H) = None \<and> tidy H"
    using ne(2) unfolding h_def
    by (rule baseURL_shape)
       (rule ExtractHost_no_slash, rule ExtractHost_unmatched, rule ExtractHost_tidy)
  then obtain H where "baseURL U h = ''https://'' @ H" "H \<noteq> []" "CHR ''/'' \<notin> set H"
    "\<forall>rest. githubioRe (H @ CHR ''/'' # rest) = None" "baseURL U H = ''https://'' @ H"
    "map_of subdomainPrefixes (ToLower U H) = None" "tidy H"
    by blast
  with u owr ow r t show ?thesis
    by (intro exI [of _ H] exI [of _ ow] exI [of _ r]) simp
qed

lemma Extract_of_Clean:
  assumes c: "Clean U u = H @ ''/'' @ ow @ ''/'' @ r"
    and H: "H \<noteq> []" "CHR ''/'' \<notin> set H"
    and ow: "ow \<noteq> []" "CHR ''/'' \<notin> set ow"
    and r: "r \<noteq> []" "CHR ''/'' \<notin> set r"
    and re: "githubioRe (Clean U u) = None"
  shows "ExtractOwnerRepo U u = ow @ ''/'' @ r \<and> ExtractHost U u = H"
proof -
  have idx: "Index (Clean U u) ''/'' = Some (length H)"
    unfolding c using Index_char_append [OF H(2), of "ow @ ''/'' @ r"] by simp
  have d: "drop (length H + 1) (Clean U u) = ow @ ''/'' @ r"
    by (simp add: c)
  have "\<not> Contains (drop (length H + 1) (Clean U u)) ''//''"
    using Clean_no_double_slash by (rule Contains_drop)
  then have col: "collapseSlashes (ow @ ''/'' @ r) = ow @ ''/'' @ r"
    unfolding d by (rule collapseSlashes_id)
  have ne: "Clean U u \<noteq> []" "length H \<noteq> length (Clean U u) - 1"
    using ow by (simp_all add: c)
  have path: "ExtractPath U u = ow @ ''/'' @ r"
    using ne re idx d col by (simp add: ExtractPath_def Let_def)
  have tw: "takeWhile (\<lambda>x. x \<noteq> CHR ''/'') (ow @ CHR ''/'' # r) = ow"
    using ow(2) by (rule takeWhile_seg)
  have dw: "dropWhile (\<lambda>x. x \<noteq> CHR ''/'') (ow @ CHR ''/'' # r) = CHR ''/'' # r"
    using ow(2) by (induction ow) auto
  have twr: "takeWhile (\<lambda>x. x \<noteq> CHR ''/'') r = r"
    using r(2) by (induction r) auto
  have "ownerRepoOf (ow @ ''/'' @ r) = ow @ ''/'' @ r"
    using ow(1) r(1) by (simp add: ownerRepoOf_eq tw dw twr del: takeWhile_eq_all_conv)
  then have 1: "ExtractOwnerRepo U u = ow @ ''/'' @ r"
    by (simp add: ExtractOwnerRepo_def path)
  have "take (length H) (Clean U u) = H"
    by (simp add: c)
  then have 2: "ExtractHost U u = H"
    using ne(1) re idx by (simp add: ExtractHost_def Let_def)
  from 1 2 show ?thesis ..
qed

text \<open>
  When \<open>Clean\<close> takes from a result of \<open>Parse\<close> its scheme and nothing else, \<open>Parse\<close> finds
  the same host, owner and repository in it again.
\<close>

lemma Parse_of_cleaned_result:
  assumes "Parse U text = u" and "u \<noteq> []" and "Clean U u = drop 8 u"
  shows "Parse U u = u"
proof -
  from assms(1,2) obtain H ow r where
    u: "u = ''https://'' @ H @ ''/'' @ ow @ ''/'' @ r"
    and H: "H \<noteq> []" "CHR ''/'' \<notin> set H"
    and ow: "ow \<noteq> []" "CHR ''/'' \<notin> set ow" and r: "r \<noteq> []" "CHR ''/'' \<notin> set r"
    and re: "\<forall>rest. githubioRe (H @ CHR ''/'' # rest) = None"
    and bH: "baseURL U H = ''https://'' @ H"
    using Parse_shape [of U "text" u] by blast
  have "drop 8 u = H @ ''/'' @ ow @ ''/'' @ r"
    by (simp add: u)
  with assms(3) have c: "Clean U u = H @ ''/'' @ ow @ ''/'' @ r"
    by simp
  have "githubioRe (Clean U u) = None"
    unfolding c using re by simp
  with c H ow r have "ExtractOwnerRepo U u = ow @ ''/'' @ r \<and> ExtractHost U u = H"
    by (rule Extract_of_Clean)
  then have "Parse U u = baseURL U H @ ''/'' @ ow @ ''/'' @ r"
    using H(1) by (simp add: Parse_baseURL)
  then show ?thesis
    by (simp add: bH u)
qed

text \<open>
  \<open>ParseURL\<close> and \<open>Parse\<close> agree on every input whose host is not empty.
\<close>

lemma ParseURL_Parse_agree:
  assumes "ExtractHost U rawURL \<noteq> []"
  shows "(ParseURL U rawURL = None \<longleftrightarrow> Parse U rawURL = []) \<and>
         String U (ParseURL U rawURL) = Parse U rawURL"
proof (cases "ExtractOwnerRepo U rawURL = []")
  case True
  then show ?thesis
    by (simp add: ParseURL_def Parse_def String_def)
next
  case False
  then obtain ow r where eq: "ExtractOwnerRepo U rawURL = ow @ ''/'' @ r"
    and p: "ParseURL U rawURL = Some \<lparr>Host = ExtractHost U rawURL, Owner = ow, Repo = r\<rparr>"
    using ParseURL_shape by blast
  from assms show ?thesis
    by (simp add: p String_baseURL Parse_baseURL eq)
qed

lemma Clean_of_url:
  assumes rest: "rest = H @ ''/'' @ ow @ ''/'' @ r"
    and H: "H \<noteq> []" "CHR ''/'' \<notin> set H"
    and ow: "ow \<noteq> []" "CHR ''/'' \<notin> set ow"
    and r: "r \<noteq> []" "CHR ''/'' \<notin> set r"
    and sub: "map_of subdomainPrefixes (ToLower U H) = None"
    and tidy: "tidy rest" and ascii: "isASCII rest"
    and at: "CHR ''@'' \<notin> set rest" and colon: "CHR '':'' \<notin> set rest"
    and space: "\<not> asciiSpace (last rest)"
    and git: "\<not> suffix ''.git'' (map lowerByte rest)"
  shows "Clean U (''https://'' @ rest) = rest"
proof -
  define u where "u = ''https://'' @ rest"
  have ne: "rest \<noteq> []" and hd: "hd rest = hd H" and last: "last rest = last r"
    using H(1) r(1) by (simp_all add: rest)
  have hd_slash: "hd rest \<noteq> CHR ''/''"
    using H by (cases H) (auto simp: hd)
  have last_slash: "last rest \<noteq> CHR ''/''"
    using r unfolding last by (metis last_in_set)
  have nd: "\<not> Contains rest ''//''"
    unfolding rest using H(2) ow r by (simp add: segments_no_double_slash)
  have u_ascii: "isASCII u"
    using ascii by (simp add: u_def isASCII_code)
  have "last u = last rest"
    using ne by (simp add: u_def)
  then have 1: "TrimSpace u = u"
    using u_ascii space by (intro TrimSpace_ASCII) (simp_all add: u_def asciiSpace_def)
  have "tidy u"
    using tidy by (simp add: u_def tidy_Cons noiseChars_def)
  then have 2: "cutAt (cutAt (removeChars u noiseChars) ''#'') ''?'' = u"
    by (rule tidy_fixed)
  have 3: "removeAuth u = u"
    using at by (intro removeAuth_no_at) (simp add: u_def)
  have 4: "TrimPrefix u ''='' = u"
    by (simp add: TrimPrefix_def u_def)
  have 5: "removeSchemes U u = rest"
    unfolding u_def using ascii colon nd ne hd_slash by (rule removeSchemes_https)
  have "Index rest ''/'' = Some (length H)"
    unfolding rest using Index_char_append [OF H(2), of "ow @ ''/'' @ r"] by simp
  moreover have "Index rest '':'' = None"
    using colon by (simp add: Index_char_None)
  ultimately have "hostEnd rest = length H"
    by (simp add: hostEnd_def rest)
  moreover have "take (length H) rest = H"
    by (simp add: rest)
  ultimately have 6: "stripKnownSubdomains U rest = rest"
    using sub by (simp add: stripKnownSubdomains_def)
  have 7: "trimGitSuffix U rest = rest"
    using ascii ne last_slash git by (rule trimGitSuffix_plain)
  have 8: "TrimSuffix rest ''/'' = rest"
    using ne last_slash by (rule TrimSuffix_plain)
  have 9: "normalizeColonSeparator rest = rest"
    using colon by (rule normalizeColonSeparator_plain)
  have 10: "collapseSlashes rest = rest"
    using nd by (rule collapseSlashes_id)
  have "u \<noteq> []"
    by (simp add: u_def)
  then have "Clean U u = rest"
    by (simp add: Clean_def Let_def 1 2 3 4 5 6 7 8 9 10)
  then show ?thesis
    by (simp add: u_def)
qed

text \<open>
  A result of \<open>Parse\<close> that has ASCII bytes only, no \<open>@\<close>, no colon after its scheme, no
  white space at its end and no \<open>.git\<close> at its end is cleaned to itself without its
  scheme.
\<close>

lemma Clean_of_Parse_result:
  assumes "Parse U text = u" and "u \<noteq> []"
    and "isASCII u" and "CHR ''@'' \<notin> set u" and "CHR '':'' \<notin> set (drop 8 u)"
    and "\<not> asciiSpace (last u)" and "\<not> suffix ''.git'' (map lowerByte u)"
  shows "Clean U u = drop 8 u"
proof -
  from assms(1,2) obtain H ow r where
    u: "u = ''https://'' @ H @ ''/'' @ ow @ ''/'' @ r"
    and H: "H \<noteq> []" "CHR ''/'' \<notin> set H"
    and ow: "ow \<noteq> []" "CHR ''/'' \<notin> set ow" and r: "r \<noteq> []" "CHR ''/'' \<notin> set r"
    and sub: "map_of subdomainPrefixes (ToLower U H) = None"
    and t: "tidy H" "tidy ow" "tidy r"
    using Parse_shape [of U "text" u] by blast
  define rest where "rest = H @ ''/'' @ ow @ ''/'' @ r"
  have ur: "u = ''https://'' @ rest"
    by (simp add: u rest_def)
  then have d: "drop 8 u = rest"
    by simp
  have "tidy rest"
    using t by (simp add: rest_def tidy_append tidy_literal)
  moreover have "isASCII rest"
    using assms(3) unfolding d [symmetric] by (rule isASCII_drop)
  moreover have "CHR ''@'' \<notin> set rest"
    using assms(4) by (simp add: ur)
  moreover have "CHR '':'' \<notin> set rest"
    using assms(5) by (simp add: d)
  moreover have "last u = last rest"
    using r(1) by (simp add: ur rest_def)
  then have "\<not> asciiSpace (last rest)"
    using assms(6) by simp
  moreover have "\<not> suffix ''.git'' (map lowerByte rest)"
  proof
    assume "suffix ''.git'' (map lowerByte rest)"
    then have "suffix ''.git'' (map lowerByte u)"
      by (auto simp: suffix_def ur)
    with assms(7) show False ..
  qed
  ultimately have "Clean U (''https://'' @ rest) = rest"
    using rest_def H ow r sub by (intro Clean_of_url [of rest H ow r]) 
  then show ?thesis
    unfolding d unfolding ur .
qed

section \<open>The claims\<close>

text \<open>
  Claim C1 says that \<open>Clean\<close> is idempotent on every input. It is not: \<open>Clean\<close> turns
  \<open>a:b:c\<close> into \<open>a/b:c\<close> and that into \<open>a/b/c\<close>, since only the first colon is turned into a
  slash.
  Claim C1, amended: \<open>Clean (Clean text) = Clean text\<close> for every \<open>text\<close> whose cleaned form
  \<open>Clean text\<close> is not empty, has ASCII bytes only, has no \<open>@\<close> and no \<open>:\<close>, begins neither
  with \<open>=\<close> nor with \<open>/\<close> nor with white space, ends neither with \<open>/\<close> nor with white space
  nor, in any letter case, with \<open>.git\<close>, and whose part before the first \<open>/\<close> is, in lower
  case, not a key of \<open>subdomainPrefixes\<close> (one of the six subdomains, a dot and a known
  host).
\<close>

theorem Clean_idempotent_on_plain_text:
  assumes "Clean U text \<noteq> []" and "isASCII (Clean U text)"
    and "CHR ''@'' \<notin> set (Clean U text)" and "CHR '':'' \<notin> set (Clean U text)"
    and "hd (Clean U text) \<noteq> CHR ''=''" and "hd (Clean U text) \<noteq> CHR ''/''"
    and "\<not> asciiSpace (hd (Clean U text))"
    and "last (Clean U text) \<noteq> CHR ''/''" and "\<not> asciiSpace (last (Clean U text))"
    and "\<not> suffix ''.git'' (map lowerByte (Clean U text))"
    and "map_of subdomainPrefixes
           (map lowerByte (takeWhile (\<lambda>x. x \<noteq> CHR ''/'') (Clean U text))) = None"
  shows "Clean U (Clean U text) = Clean U text"
proof -
  have "stripKnownSubdomains U (Clean U text) = Clean U text"
    using assms(2,4,11) by (rule stripKnownSubdomains_plain)
  with Clean_tidy Clean_no_double_slash assms(2,1,3,4,5,6,8,7,9,10) show ?thesis
    by (rule Clean_fixed_plain)
qed

text \<open>
  Claim C2 says that \<open>Parse u = u\<close> for every non-empty result \<open>u\<close> of \<open>Parse\<close>. It does
  not hold for every result: \<open>Parse\<close> maps \<open>https://github.com/a/b.git.git\<close> to
  \<open>https://github.com/a/b.git\<close>, and that to \<open>https://github.com/a/b\<close>.
  Claim C2, amended: if \<open>Parse text = u\<close> and \<open>u\<close> is not empty, has ASCII bytes only, has no
  \<open>@\<close>, has no \<open>:\<close> after its first eight bytes (the scheme \<open>https://\<close>), and ends neither
  with white space nor, in any letter case, with \<open>.git\<close>, then \<open>Parse u = u\<close>.
\<close>

theorem Parse_idempotent_on_plain_result:
  assumes "Parse U text = u" and "u \<noteq> []"
    and "isASCII u" and "CHR ''@'' \<notin> set u" and "CHR '':'' \<notin> set (drop 8 u)"
    and "\<not> asciiSpace (last u)" and "\<not> suffix ''.git'' (map lowerByte u)"
  shows "Parse U u = u"
proof -
  have "Clean U u = drop 8 u"
    using assms by (rule Clean_of_Parse_result)
  with assms(1,2) show ?thesis
    by (rule Parse_of_cleaned_result)
qed

text \<open>
  Claim C3 says that for a host \<open>sub.domain\<close>, with \<open>domain\<close> in the known-host table and
  \<open>sub\<close> not one of the six subdomain tokens, \<open>canonicalizeHost\<close> returns the canonical
  base of the domain and the full host, and that the subdomain therefore still appears
  in the result of \<open>Parse\<close>. The first half holds, for the host in lower case; the second
  does not: \<open>Parse\<close> uses the returned host only when the canonical base is empty, so
  \<open>https://foo.gitlab.com/a/b\<close> becomes \<open>https://gitlab.com/a/b\<close>.
  Claim C3, amended: if the lower-cased host is \<open>sub.domain\<close>, \<open>domain\<close> is in the table
  with canonical base \<open>c\<close>, and \<open>sub\<close> is not a subdomain token, then \<open>canonicalizeHost\<close>
  returns \<open>c\<close> and the whole lower-cased host; and for every input with that host and a
  non-empty owner and repository \<open>Parse\<close> returns \<open>c\<close>, a slash, and the owner and
  repository: the result is built from the canonical base alone.
\<close>

theorem canonicalizeHost_unrecognized_subdomain:
  assumes "(domain, c) \<in> set knownHosts"
    and "ToLower U host = sub @ ''.'' @ domain"
    and "sub \<notin> set knownSubdomains"
  shows "canonicalizeHost U host = (c, ToLower U host) \<and>
         (ExtractHost U rawURL = host \<and> ExtractOwnerRepo U rawURL \<noteq> [] \<longrightarrow>
            Parse U rawURL = c @ ''/'' @ ExtractOwnerRepo U rawURL)"
proof -
  have canon: "canonicalizeHost U host = (c, ToLower U host)"
    using canonicalizeHost_subdomain [OF assms(1,2)] assms(3) by simp
  have "host \<noteq> []"
    using assms(2) ToLower_Nil [of U] by auto
  moreover have "c \<noteq> []"
    using assms(1) by (rule knownHosts_canonical_nonempty)
  ultimately show ?thesis
    using canon by (simp add: Parse_def Let_def)
qed

text \<open>
  Claim C4 says that \<open>Normalize\<close> returns a non-empty string for every non-empty input.
  It returns the empty string for an input of white space only, such as one space:
  after \<open>TrimSpace\<close> it tests for the empty string and returns it.
  Claim C4, amended: \<open>Normalize\<close> returns a non-empty string for every input that
  \<open>TrimSpace\<close> does not make empty, and the empty string for every other input.
\<close>

theorem Normalize_nonempty:
  "(TrimSpace text \<noteq> [] \<longrightarrow> Normalize U text \<noteq> []) \<and>
   (TrimSpace text = [] \<longrightarrow> Normalize U text = [])"
  by (auto simp: Normalize_def Let_def)

text \<open>
  Claim C7 says that every input whose cleaned form is a host alone, or a host and one
  path segment, has an empty \<open>ExtractOwnerRepo\<close> and an empty \<open>Parse\<close>. The GitHub Pages
  pattern is an exception made on purpose: the cleaned form \<open>foo.github.io/bar\<close> is a host
  and one segment, and its owner and repository are \<open>foo/bar\<close>.
  Claim C7, amended: if the cleaned form of the input has no \<open>/\<close>, or has exactly one
  \<open>/\<close> and does not match the GitHub Pages pattern, then \<open>ExtractOwnerRepo\<close> and \<open>Parse\<close>
  both return the empty string.
\<close>

theorem host_or_single_segment_is_empty:
  assumes "CHR ''/'' \<notin> set (Clean U rawURL) \<or>
           (count_list (Clean U rawURL) (CHR ''/'') = 1 \<and> githubioRe (Clean U rawURL) = None)"
  shows "ExtractOwnerRepo U rawURL = [] \<and> Parse U rawURL = []"
proof -
  have "CHR ''/'' \<notin> set (ExtractPath U rawURL)"
    using assms ExtractPath_host_only [of U rawURL] ExtractPath_single_segment [of U rawURL]
    by auto
  then have "ExtractOwnerRepo U rawURL = []"
    by (simp add: ExtractOwnerRepo_def ownerRepoOf_no_slash)
  then show ?thesis
    by (simp add: Parse_no_ownerRepo)
qed

text \<open>
  Claim C8: in \<open>ParseFromMap\<close>, when no priority key has a value that \<open>Parse\<close> accepts, a
  non-empty result is \<open>Parse\<close> of a value of the map that does not contain \<open>/sponsors\<close>;
  and if every value of the map that \<open>Parse\<close> accepts contains \<open>/sponsors\<close>, the result is
  the empty string. This holds for every order in which the map is visited.
\<close>

theorem ParseFromMap_fallback_skips_sponsors:
  assumes "\<forall>key\<in>set (if priorityKeys = [] then defaultPriorityKeys else priorityKeys).
             \<forall>val. map_of m key = Some val \<longrightarrow> Parse U val = []"
  shows "(ParseFromMap U m priorityKeys \<noteq> [] \<longrightarrow>
            (\<exists>(key, val)\<in>set m. \<not> Contains val ''/sponsors'' \<and>
                                 Parse U val = ParseFromMap U m priorityKeys)) \<and>
         ((\<forall>(key, val)\<in>set m. Parse U val \<noteq> [] \<longrightarrow> Contains val ''/sponsors'') \<longrightarrow>
            ParseFromMap U m priorityKeys = [])"
proof -
  have "priorityScan U m (if priorityKeys = [] then defaultPriorityKeys else priorityKeys) = None"
    using assms by (rule priorityScan_None)
  then have "ParseFromMap U m priorityKeys = fallbackScan U m"
    by (simp add: ParseFromMap_def)
  then show ?thesis
    using fallbackScan_source [of U m] fallbackScan_only_sponsors [of m U] by auto
qed

text \<open>
  Claim C9: whenever \<open>ParseURL\<close> returns a \<open>RepoURL\<close>, its \<open>Owner\<close> and its \<open>Repo\<close> are
  non-empty, for every input.
\<close>

theorem ParseURL_owner_repo_nonempty:
  assumes "ParseURL U rawURL = Some r"
  shows "Owner r \<noteq> [] \<and> Repo r \<noteq> []"
proof -
  from assms have "ExtractOwnerRepo U rawURL \<noteq> []"
    by (auto simp: ParseURL_def)
  then obtain ow rp where "ow \<noteq> []" "rp \<noteq> []"
    and "ParseURL U rawURL = Some \<lparr>Host = ExtractHost U rawURL, Owner = ow, Repo = rp\<rparr>"
    using ParseURL_shape by blast
  with assms show ?thesis by auto
qed

section \<open>Results on concrete inputs\<close>

text \<open>
  The inputs below have ASCII bytes only, so the results do not depend on the Unicode
  lowering; where a closed statement is needed it is the identity.
\<close>

text \<open>
  Claim C5: on the input \<open>scm:git:https://michaelkrog@github.com/michaelkrog/filter4j.git#x\<close>,
  which stacks a vendor prefix, a scheme, credentials, a \<open>.git\<close> suffix and a fragment,
  \<open>Parse\<close> returns exactly \<open>https://github.com/michaelkrog/filter4j\<close>.
\<close>

theorem Parse_compound_input:
  "Parse U ''scm:git:https://michaelkrog@github.com/michaelkrog/filter4j.git#x'' =
     ''https://github.com/michaelkrog/filter4j''"
  by code_simp

text \<open>
  Claim C6: a host outside the known-host table passes through:
  \<open>Parse\<close> maps \<open>https://git.example.com/owner/repo\<close> to itself (the \<open>git.\<close> subdomain
  stays), and \<open>IsKnownHost\<close> is false on that input.
\<close>

theorem unknown_host_passthrough:
  "Parse U ''https://git.example.com/owner/repo'' = ''https://git.example.com/owner/repo'' \<and>
   IsKnownHost U ''https://git.example.com/owner/repo'' = False"
  by code_simp

text \<open>
  Claim C10 says that \<open>ParseURL\<close> returns nothing exactly when \<open>Parse\<close> returns the empty
  string, and that the \<open>String\<close> of its result is \<open>Parse\<close> of the same input. On the input
  \<open>:a/b\<close> the cleaned text is \<open>/a/b\<close>: the owner and repository are \<open>a\<close> and \<open>b\<close> and the
  host is empty. \<open>Parse\<close> tests for the empty host and returns the empty string;
  \<open>ParseURL\<close> has no such test and returns a \<open>RepoURL\<close> with an empty host, whose
  \<open>String\<close> is \<open>https:///a/b\<close>. (On every input with a non-empty host the two agree.)
\<close>

theorem ParseURL_Parse_disagree:
  "ParseURL id '':a/b'' = Some \<lparr>Host = [], Owner = ''a'', Repo = ''b''\<rparr> \<and>
   Parse id '':a/b'' = [] \<and>
   String id (ParseURL id '':a/b'') = ''https:///a/b''"
  by code_simp

subsection \<open>Inputs on which a claim fails as stated\<close>

text \<open>Cleaning \<open>a:b:c\<close> twice is not cleaning it once (claim C1).\<close>

theorem Clean_not_idempotent:
  "Clean id (Clean id ''a:b:c'') \<noteq> Clean id ''a:b:c''"
  by code_simp

text \<open>
  For each condition on the bytes of the cleaned form in the theorem about \<open>Clean\<close>, in
  the order of its statement, an input whose cleaned form fails that condition and is
  not cleaned to itself.
\<close>

lemma Clean_changes_cleaned_text:
  "Clean id ([CHR ''='', CHR 0xC2, CHR 0xA0] @ ''a'') = [CHR 0xC2, CHR 0xA0] @ ''a'' \<and>
     Clean id ([CHR 0xC2, CHR 0xA0] @ ''a'') = ''a''"
  "Clean id ''/x@y.z'' = ''x@y.z'' \<and> Clean id ''x@y.z'' = ''y.z''"
  "Clean id ''a:b:c'' = ''a/b:c'' \<and> Clean id ''a/b:c'' = ''a/b/c''"
  "Clean id ''==a'' = ''=a'' \<and> Clean id ''=a'' = ''a''"
  "Clean id '':a'' = ''/a'' \<and> Clean id ''/a'' = ''a''"
  "Clean id ([CHR ''='', CHR 0x0B] @ ''foo'') = CHR 0x0B # ''foo'' \<and>
     Clean id (CHR 0x0B # ''foo'') = ''foo''"
  "Clean id ''a//'' = ''a/'' \<and> Clean id ''a/'' = ''a''"
  "Clean id (''foo'' @ [CHR 0x0B, CHR ''/'']) = ''foo'' @ [CHR 0x0B] \<and>
     Clean id (''foo'' @ [CHR 0x0B]) = ''foo''"
  "Clean id ''a.git.git'' = ''a.git'' \<and> Clean id ''a.git'' = ''a''"
  "Clean id ''www.github.com.git'' = ''www.github.com'' \<and>
     Clean id ''www.github.com'' = ''github.com''"
  by code_simp+

text \<open>A result of \<open>Parse\<close> that \<open>Parse\<close> changes (claim C2).\<close>

theorem Parse_not_idempotent:
  "Parse id ''https://github.com/a/b.git.git'' = ''https://github.com/a/b.git'' \<and>
   ''https://github.com/a/b.git'' \<noteq> [] \<and>
   Parse id ''https://github.com/a/b.git'' \<noteq> ''https://github.com/a/b.git''"
  by code_simp

text \<open>
  The same for the other conditions of the theorem about \<open>Parse\<close>: a result that is not
  ASCII, has an \<open>@\<close>, has a colon after its scheme, or ends with white space, and that
  \<open>Parse\<close> changes.
\<close>

lemma Parse_changes_its_result:
  "Parse id (''github.com/a/b'' @ [CHR 0xC2, CHR 0xA0] @ ''/x'') =
     ''https://github.com/a/b'' @ [CHR 0xC2, CHR 0xA0] \<and>
   Parse id (''https://github.com/a/b'' @ [CHR 0xC2, CHR 0xA0]) = ''https://github.com/a/b''"
  "Parse id ''/x@y.z/a/b'' = ''https://x@y.z/a/b'' \<and>
   Parse id ''https://x@y.z/a/b'' = ''https://y.z/a/b''"
  "Parse id ''github.com/a:b:c/d'' = ''https://github.com/a/b:c'' \<and>
   Parse id ''https://github.com/a/b:c'' = ''https://github.com/a/b''"
  "Parse id (''github.com/a/b'' @ [CHR 0x0B] @ ''/x'') = ''https://github.com/a/b'' @ [CHR 0x0B] \<and>
   Parse id (''https://github.com/a/b'' @ [CHR 0x0B]) = ''https://github.com/a/b''"
  by code_simp+

text \<open>
  An unrecognized subdomain of a known host is not in the result of \<open>Parse\<close> (claim C3).
\<close>

theorem unrecognized_subdomain_dropped:
  "ExtractHost id ''https://foo.gitlab.com/a/b'' = ''foo.gitlab.com'' \<and>
   Parse id ''https://foo.gitlab.com/a/b'' = ''https://gitlab.com/a/b'' \<and>
   \<not> Contains (Parse id ''https://foo.gitlab.com/a/b'') ''foo''"
  by code_simp

text \<open>A non-empty input on which \<open>Normalize\<close> returns the empty string (claim C4).\<close>

theorem Normalize_blank_input: "'' '' \<noteq> [] \<and> Normalize id '' '' = []"
  by code_simp

text \<open>
  An input whose cleaned form is a host and one path segment, with a non-empty owner
  and repository (claim C7).
\<close>

theorem github_pages_single_segment:
  "Clean id ''https://foo.github.io/bar'' = ''foo.github.io/bar'' \<and>
   count_list (Clean id ''https://foo.github.io/bar'') (CHR ''/'') = 1 \<and>
   ExtractOwnerRepo id ''https://foo.github.io/bar'' = ''foo/bar'' \<and>
   Parse id ''https://foo.github.io/bar'' = ''https://github.com/foo/bar''"
  by code_simp

subsection \<open>The theorems at concrete inputs\<close>

theorem Clean_idempotent_on_plain_text_witness:
  "Clean id (Clean id ''git@github.com:foo/bar.git'') = Clean id ''git@github.com:foo/bar.git''"
  by (rule Clean_idempotent_on_plain_text) code_simp+

theorem Parse_idempotent_on_plain_result_witness:
  "Parse id ''https://foo.github.io/bar'' = ''https://github.com/foo/bar'' \<and>
   Parse id ''https://github.com/foo/bar'' = ''https://github.com/foo/bar''"
proof -
  have 1: "Parse id ''https://foo.github.io/bar'' = ''https://github.com/foo/bar''"
    by code_simp
  have 2: "Parse id ''https://github.com/foo/bar'' = ''https://github.com/foo/bar''"
    using 1 by (rule Parse_idempotent_on_plain_result) code_simp+
  from 1 2 show ?thesis ..
qed

theorem canonicalizeHost_unrecognized_subdomain_witness:
  "canonicalizeHost id ''foo.gitlab.com'' = (''https://gitlab.com'', ''foo.gitlab.com'') \<and>
   Parse id ''https://foo.gitlab.com/a/b'' = ''https://gitlab.com/a/b''"
proof -
  have 1: "(''gitlab.com'', ''https://gitlab.com'') \<in> set knownHosts"
    by (simp add: knownHosts_def)
  have 2: "ToLower id ''foo.gitlab.com'' = ''foo'' @ ''.'' @ ''gitlab.com''"
    by code_simp
  have 3: "''foo'' \<notin> set knownSubdomains"
    by (simp add: knownSubdomains_def)
  have 4: "ExtractHost id ''https://foo.gitlab.com/a/b'' = ''foo.gitlab.com''"
    by code_simp
  have 5: "ExtractOwnerRepo id ''https://foo.gitlab.com/a/b'' = ''a/b''"
    by code_simp
  from canonicalizeHost_unrecognized_subdomain [OF 1 2 3, of "''https://foo.gitlab.com/a/b''"]
  show ?thesis
    by (simp add: 2 4 5)
qed

theorem Normalize_nonempty_witness:
  "Normalize id ''git@github.com:foo/bar.git'' \<noteq> []"
proof -
  have "TrimSpace ''git@github.com:foo/bar.git'' \<noteq> []"
    by code_simp
  with Normalize_nonempty [of "''git@github.com:foo/bar.git''" id] show ?thesis
    by blast
qed

theorem host_or_single_segment_is_empty_witness:
  "(ExtractOwnerRepo id ''https://github.com'' = [] \<and> Parse id ''https://github.com'' = []) \<and>
   (ExtractOwnerRepo id ''https://github.com/foo'' = [] \<and> Parse id ''https://github.com/foo'' = [])"
proof
  show "ExtractOwnerRepo id ''https://github.com'' = [] \<and> Parse id ''https://github.com'' = []"
    by (rule host_or_single_segment_is_empty) code_simp
  show "ExtractOwnerRepo id ''https://github.com/foo'' = [] \<and> Parse id ''https://github.com/foo'' = []"
    by (rule host_or_single_segment_is_empty) code_simp
qed

theorem ParseFromMap_fallback_skips_sponsors_witness:
  "ParseFromMap id [(''homepage'', ''https://github.com/sponsors/foo'')] [] = []"
proof -
  have 1: "\<forall>key\<in>set (if ([]::string list) = [] then defaultPriorityKeys else []).
        \<forall>val. map_of [(''homepage'', ''https://github.com/sponsors/foo'')] key = Some val \<longrightarrow>
          Parse id val = []"
    by (simp add: defaultPriorityKeys_def)
  have 2: "\<forall>(key, val)\<in>set [(''homepage'', ''https://github.com/sponsors/foo'')].
        Parse id val \<noteq> [] \<longrightarrow> Contains val ''/sponsors''"
    by code_simp
  from ParseFromMap_fallback_skips_sponsors [OF 1] 2 show ?thesis
    by blast
qed

theorem ParseURL_owner_repo_nonempty_witness:
  "Owner \<lparr>Host = ''gitlab.com'', Owner = ''owner'', Repo = ''repo''\<rparr> \<noteq> [] \<and>
   Repo \<lparr>Host = ''gitlab.com'', Owner = ''owner'', Repo = ''repo''\<rparr> \<noteq> []"
  by (rule ParseURL_owner_repo_nonempty [of id "''git@gitlab.com:owner/repo.git''"]) code_simp

end
